theory Spec2Isabelle
  imports Main "HOL-Library.Sublist" "HOL-Library.AList"
begin

section \<open>Storage telemetry: data model\<close>

text \<open>
  The record \<open>StorageData\<close> and the mapping \<open>StorageCache\<close> are declared identically in
  \<^verbatim>\<open>src/app/api/rclone/storage/route.ts\<close> (lines 6-16),
  \<^verbatim>\<open>src/app/api/rclone/storage/stream/route.ts\<close> (lines 8-18) and
  \<^verbatim>\<open>lib/background-storage.ts\<close>. An optional field is an
  \<open>option\<close>; the byte counts of the daemon are integers; \<open>lastUpdated\<close> is a reading of
  \<^verbatim>\<open>Date.now()\<close>. The cache object \<^verbatim>\<open>global.storageCache\<close> is created as \<^verbatim>\<open>{}\<close>
  (storage/route.ts 26-28). \<open>StorageCache\<close> is the list of its own properties, a remote
  name with its record, in the order in which the names were first assigned and no name
  twice: what \<^verbatim>\<open>JSON.stringify\<close>, \<^verbatim>\<open>Object.keys\<close> and \<^verbatim>\<open>Object.values\<close> see (they list
  names that are array indices first; no code of the repository depends on the order).
  What the object inherits from its prototype is modelled with the merge step below.
\<close>

record StorageData =
  total :: "int option"
  used :: "int option"
  free :: "int option"
  lastUpdated :: int
  error :: "string option"

type_synonym StorageCache = "(string \<times> StorageData) list"

subsection \<open>What the daemon can answer\<close>

text \<open>
  A value thrown inside a \<^verbatim>\<open>try\<close> block: an \<^verbatim>\<open>Error\<close> object with its name and
  message, or anything else.
\<close>

datatype thrown = ErrorObj string string | NonError

text \<open>
  The outcome of \<^verbatim>\<open>fetch(.../operations/about)\<close> followed by \<^verbatim>\<open>response.json()\<close>:
  \<^item> \<open>AboutOk t u f\<close>: \<^verbatim>\<open>response.ok\<close>, and the parsed body has the fields
    \<^verbatim>\<open>total\<close>, \<^verbatim>\<open>used\<close>, \<^verbatim>\<open>free\<close> (each possibly missing);
  \<^item> \<open>AboutNotOk status err statusText\<close>: not \<^verbatim>\<open>response.ok\<close>; \<open>err\<close> is the field
    \<^verbatim>\<open>error\<close> of the parsed body, \<open>None\<close> when the body is not JSON (the
    \<^verbatim>\<open>.catch(() => ({}))\<close>) or has no such field;
  \<^item> \<open>AboutThrows e\<close>: \<^verbatim>\<open>fetch\<close> rejects (network failure, abort at the timeout) or
    the body of a successful response cannot be parsed.
\<close>

datatype about_reply =
    AboutOk "int option" "int option" "int option"
  | AboutNotOk nat "string option" string
  | AboutThrows thrown

text \<open>The outcome of \<^verbatim>\<open>fetch(.../config/listremotes)\<close>: the field \<^verbatim>\<open>remotes\<close> of the body.\<close>

datatype list_reply =
    ListOk "string list option"
  | ListNotOk nat
  | ListThrows thrown

subsection \<open>Strings\<close>

definition digit :: "nat \<Rightarrow> char" where
  "digit n = ''0123456789'' ! (n mod 10)"

text \<open>A number inside a template string: its decimal digits.\<close>

function decimal :: "nat \<Rightarrow> string" where
  "decimal n = (if n < 10 then [digit n] else decimal (n div 10) @ [digit n])"
  by pat_completeness auto
termination
  by (relation "measure id") auto

declare decimal.simps [simp del]

text \<open>\<^verbatim>\<open>a || b\<close> on an optional string: the empty string and \<^verbatim>\<open>undefined\<close> are falsy.\<close>

definition or_else :: "string option \<Rightarrow> string \<Rightarrow> string" where
  "or_else s d = (case s of None \<Rightarrow> d | Some x \<Rightarrow> if x \<noteq> [] then x else d)"

text \<open>\<^verbatim>\<open>s.includes(sub)\<close>: \<open>sub\<close> occurs in \<open>s\<close> as a contiguous substring.\<close>

primrec str_includes :: "string \<Rightarrow> string \<Rightarrow> bool" where
  "str_includes [] sub = (sub = [])"
| "str_includes (c # cs) sub = (prefix sub (c # cs) \<or> str_includes cs sub)"

section \<open>Capacity prober\<close>

text \<open>
  \<^verbatim>\<open>checkRemoteStorage\<close> (storage/route.ts 35-73, stream/route.ts 37-75). The body of the
  \<^verbatim>\<open>try\<close> block either throws or returns a record; \<open>now\<close> is the reading of
  \<^verbatim>\<open>Date.now()\<close> when the awaited reply has arrived.
\<close>

definition checkRemoteStorage_try :: "string \<Rightarrow> about_reply \<Rightarrow> int \<Rightarrow> thrown + StorageData" where
  "checkRemoteStorage_try remote reply now =
     (case reply of
        AboutThrows e \<Rightarrow> Inl e
      | AboutNotOk status err statusText \<Rightarrow>
          Inl (ErrorObj ''Error'' (''API error: '' @ decimal status @ '' - '' @ or_else err statusText))
      | AboutOk t u f \<Rightarrow>
          Inr \<lparr>total = t, used = u, free = f, lastUpdated = now, error = None\<rparr>)"

definition checkRemoteStorage :: "string \<Rightarrow> about_reply \<Rightarrow> int \<Rightarrow> StorageData" where
  "checkRemoteStorage remote reply now =
     (case checkRemoteStorage_try remote reply now of
        Inr data \<Rightarrow> data
      | Inl e \<Rightarrow>
          \<lparr>total = None, used = None, free = None, lastUpdated = now,
           error = Some (case e of ErrorObj name msg \<Rightarrow> msg | NonError \<Rightarrow> ''Unknown error'')\<rparr>)"

text \<open>
  \<^verbatim>\<open>getRemotesList\<close> (storage/route.ts 76-97): every failure is caught and becomes the
  empty list; a body without \<^verbatim>\<open>remotes\<close> becomes the empty list too.
\<close>

definition getRemotesList_try :: "list_reply \<Rightarrow> thrown + string list" where
  "getRemotesList_try reply =
     (case reply of
        ListThrows e \<Rightarrow> Inl e
      | ListNotOk status \<Rightarrow>
          Inl (ErrorObj ''Error'' (''Failed to get remotes list: '' @ decimal status))
      | ListOk rs \<Rightarrow> Inr (case rs of None \<Rightarrow> [] | Some xs \<Rightarrow> xs))"

definition getRemotesList :: "list_reply \<Rightarrow> string list" where
  "getRemotesList reply = (case getRemotesList_try reply of Inr xs \<Rightarrow> xs | Inl e \<Rightarrow> [])"

section \<open>Telemetry cache: the merge step\<close>

subsection \<open>Reading and assigning a property of the cache object\<close>

text \<open>
  The merge step reads \<^verbatim>\<open>global.storageCache![remote]\<close> and assigns to it
  (storage/route.ts 139 and 146). The cache is a plain object, so a name that is not one
  of its own properties is looked up in its prototype. The values such a read can give:
  \<^verbatim>\<open>undefined\<close>; a record; an object or function of the runtime (\<^verbatim>\<open>Object.prototype\<close>
  or one of its methods), which has no property \<^verbatim>\<open>total\<close>, \<^verbatim>\<open>used\<close> or \<^verbatim>\<open>error\<close>; a
  number; a string.
\<close>

datatype js_value =
    JsUndefined
  | JsRecord StorageData
  | JsBuiltin
  | JsNumber int
  | JsString string

text \<open>
  The data properties of \<^verbatim>\<open>Object.prototype\<close>, all of them functions. Its one other
  property, the accessor \<^verbatim>\<open>__proto__\<close>, reads and replaces the prototype of the object
  it is used on.
\<close>

definition objectPrototypeMethods :: "string list" where
  "objectPrototypeMethods =
     [''constructor'', ''hasOwnProperty'', ''isPrototypeOf'', ''propertyIsEnumerable'',
      ''toLocaleString'', ''toString'', ''valueOf'', ''__defineGetter__'', ''__defineSetter__'',
      ''__lookupGetter__'', ''__lookupSetter__'']"

definition objectPrototype :: "string \<Rightarrow> js_value" where
  "objectPrototype k = (if k \<in> set objectPrototypeMethods then JsBuiltin else JsUndefined)"

text \<open>
  A property of a record that \<^verbatim>\<open>checkRemoteStorage\<close> returned, an object literal whose
  prototype is \<^verbatim>\<open>Object.prototype\<close>: a field that is missing or \<^verbatim>\<open>undefined\<close> reads as
  \<^verbatim>\<open>undefined\<close>.
\<close>

definition optional :: "('a \<Rightarrow> js_value) \<Rightarrow> 'a option \<Rightarrow> js_value" where
  "optional f x = (case x of None \<Rightarrow> JsUndefined | Some v \<Rightarrow> f v)"

definition recordGet :: "StorageData \<Rightarrow> string \<Rightarrow> js_value" where
  "recordGet r k =
     (if k = ''total'' then optional JsNumber (total r)
      else if k = ''used'' then optional JsNumber (used r)
      else if k = ''free'' then optional JsNumber (free r)
      else if k = ''lastUpdated'' then JsNumber (lastUpdated r)
      else if k = ''error'' then optional JsString (error r)
      else objectPrototype k)"

text \<open>
  \<^verbatim>\<open>global.storageCache![k]\<close>. \<open>cache\<close> holds the own properties of the object and
  \<open>proto\<close> its prototype: \<open>None\<close> while that is \<^verbatim>\<open>Object.prototype\<close>, as at creation, and
  \<open>Some p\<close> once the record \<open>p\<close> has been assigned under the name \<^verbatim>\<open>__proto__\<close>. An own
  property hides an inherited one.
\<close>

definition cacheGet :: "StorageCache \<Rightarrow> StorageData option \<Rightarrow> string \<Rightarrow> js_value" where
  "cacheGet cache proto k =
     (case map_of cache k of
        Some r \<Rightarrow> JsRecord r
      | None \<Rightarrow>
          (case proto of
             None \<Rightarrow> if k = ''__proto__'' then JsBuiltin else objectPrototype k
           | Some p \<Rightarrow> if k = ''__proto__'' then JsRecord p else recordGet p k))"

text \<open>
  \<^verbatim>\<open>global.storageCache![k] = v\<close>: an own property is overwritten; over an inherited data
  property (all of them are writable) or over nothing, an own property is created; the
  inherited setter \<^verbatim>\<open>__proto__\<close> makes the record the prototype of the cache and creates
  no property.
\<close>

definition cacheSet :: "StorageCache \<Rightarrow> StorageData option \<Rightarrow> string \<Rightarrow> StorageData
    \<Rightarrow> StorageCache \<times> StorageData option" where
  "cacheSet cache proto k v =
     (if k = ''__proto__'' \<and> map_of cache k = None then (cache, Some v)
      else (AList.update k v cache, proto))"

text \<open>
  A name under which a cache object without properties of its own, with the prototype
  \<open>proto\<close>, yields a value.
\<close>

definition inherited :: "StorageData option \<Rightarrow> string \<Rightarrow> bool" where
  "inherited proto k = (cacheGet [] proto k \<noteq> JsUndefined)"


subsection \<open>The merge\<close>

text \<open>
  The part of the callback of \<^verbatim>\<open>batch.map\<close> that runs once the probe has returned
  (storage/route.ts 139-148): compare with what the cache yields under the name of the
  remote, store the new record when it differs. It returns the cache object, own
  properties and prototype, and \<^verbatim>\<open>hasChanged\<close>.
\<close>

text \<open>\<^verbatim>\<open>!oldData\<close> is \<open>\<not> truthy oldData\<close>.\<close>

fun truthy :: "js_value \<Rightarrow> bool" where
  "truthy JsUndefined = False"
| "truthy (JsRecord r) = True"
| "truthy JsBuiltin = True"
| "truthy (JsNumber n) = (n \<noteq> 0)"
| "truthy (JsString s) = (s \<noteq> [])"

text \<open>
  \<^verbatim>\<open>oldData.total\<close>, \<^verbatim>\<open>oldData.used\<close> and \<^verbatim>\<open>oldData.error\<close>: \<^verbatim>\<open>undefined\<close> on anything
  but a record.
\<close>

fun totalOf :: "js_value \<Rightarrow> int option" where
  "totalOf (JsRecord r) = total r"
| "totalOf v = None"

fun usedOf :: "js_value \<Rightarrow> int option" where
  "usedOf (JsRecord r) = used r"
| "usedOf v = None"

fun errorOf :: "js_value \<Rightarrow> string option" where
  "errorOf (JsRecord r) = error r"
| "errorOf v = None"

definition hasChanged :: "js_value \<Rightarrow> StorageData \<Rightarrow> bool" where
  "hasChanged oldData result =
     (\<not> truthy oldData \<or> totalOf oldData \<noteq> total result \<or> usedOf oldData \<noteq> used result \<or>
      errorOf oldData \<noteq> error result)"

definition mergeOne :: "StorageCache \<Rightarrow> StorageData option \<Rightarrow> string \<Rightarrow> StorageData
    \<Rightarrow> (StorageCache \<times> StorageData option) \<times> bool" where
  "mergeOne cache proto remote result =
     (let oldData = cacheGet cache proto remote;
          changed = hasChanged oldData result
      in (if changed then cacheSet cache proto remote result else (cache, proto), changed))"

section \<open>Process-wide state\<close>

text \<open>
  What a streaming connection has been sent: \<^verbatim>\<open>controller.enqueue\<close> serialises the
  message at once, so a message holds the cache as it was at that moment.
\<close>

datatype sse_event = Initial StorageCache int | Update StorageCache int

record sink =
  closed :: bool
  delivered :: "sse_event list"

text \<open>
  The three modules that define \<^verbatim>\<open>runStorageCheckJob\<close> over the same globals:
  storage/route.ts, storage/stream/route.ts and lib/background-storage.ts. They differ in
  the delay of the timer armed in the \<^verbatim>\<open>finally\<close> block (and in what they log) only.
\<close>

datatype route = PullRoute | StreamRoute | BackgroundService

fun interval :: "route \<Rightarrow> nat" where
  "interval PullRoute = 300000"
| "interval StreamRoute = 60000"
| "interval BackgroundService = 300000"

text \<open>
  A refresh cycle suspended at an \<^verbatim>\<open>await\<close>: in \<^verbatim>\<open>getRemotesList\<close>, or in
  \<^verbatim>\<open>Promise.allSettled\<close> with the local variables of \<^verbatim>\<open>runStorageCheckJob\<close>.
  \<open>outstanding\<close> lists the remotes of the batch whose callback has not finished yet.
\<close>

record frame =
  owner :: route
  remotes :: "string list"
  remotesToCheck :: "string list"
  batch :: "string list"
  outstanding :: "string list"
  hasUpdates :: bool

datatype job = AwaitList route | AwaitBatch frame

text \<open>
  The five globals of the code, \<^verbatim>\<open>global.storageCache\<close> as its own properties and its
  prototype, then the environment they act on: whether the start-up
  check of the daemon is still under way, the timers that are armed to call
  \<^verbatim>\<open>runStorageCheckJob\<close> (handle, module whose job they call, which gives the delay
  \<open>interval\<close>), the next timer handle, the sinks of the
  streaming connections and the next connection, the suspended refresh cycles; and three
  logs of what the code did: the batches of \<^verbatim>\<open>operations/about\<close> requests issued, what
  each merge reported, and the number of calls of \<^verbatim>\<open>notifySubscribers\<close>.
  A subscriber (the closure \<^verbatim>\<open>handleStorageUpdate\<close>) is named by its connection; the
  \<^verbatim>\<open>Set\<close> of subscribers is a list in insertion order.
\<close>

record world =
  storageCache :: StorageCache
  cachePrototype :: "StorageData option"
  storageSubscribers :: "nat list"
  backgroundJobRunning :: bool
  backgroundJobTimer :: "nat option"
  backgroundJobInitialized :: bool
  startupPending :: bool
  timers :: "(nat \<times> route) list"
  timerSeq :: nat
  sinks :: "nat \<Rightarrow> sink"
  connSeq :: nat
  jobs :: "job list"
  aboutCalls :: "string list list"
  mergeLog :: "(string \<times> bool) list"
  notifyCalls :: nat

definition boot :: world where
  "boot = \<lparr>storageCache = [], cachePrototype = None, storageSubscribers = [],
     backgroundJobRunning = False,
     backgroundJobTimer = None, backgroundJobInitialized = False, startupPending = False,
     timers = [], timerSeq = 0,
     sinks = (\<lambda>c. \<lparr>closed = False, delivered = []\<rparr>), connSeq = 0,
     jobs = [], aboutCalls = [], mergeLog = [], notifyCalls = 0\<rparr>"

subsection \<open>Timers\<close>

definition setTimeout :: "route \<Rightarrow> world \<Rightarrow> nat \<times> world" where
  "setTimeout m w =
     (timerSeq w, w\<lparr>timers := timers w @ [(timerSeq w, m)], timerSeq := Suc (timerSeq w)\<rparr>)"

definition clearTimeout :: "nat \<Rightarrow> world \<Rightarrow> world" where
  "clearTimeout h w = w\<lparr>timers := filter (\<lambda>t. fst t \<noteq> h) (timers w)\<rparr>"

section \<open>Broadcast hub\<close>

text \<open>\<^verbatim>\<open>controller.enqueue\<close> of connection \<open>c\<close>: it throws on a closed stream.\<close>

definition enqueue :: "nat \<Rightarrow> sse_event \<Rightarrow> world \<Rightarrow> thrown + world" where
  "enqueue c ev w =
     (if closed (sinks w c)
      then Inl (ErrorObj ''TypeError'' ''Invalid state: Controller is already closed'')
      else Inr (w\<lparr>sinks := (sinks w)(c := (sinks w c)\<lparr>delivered := delivered (sinks w c) @ [ev]\<rparr>)\<rparr>))"

text \<open>
  \<^verbatim>\<open>handleStorageUpdate\<close> of connection \<open>c\<close> (stream/route.ts 229-247): when the push
  throws, the handler deletes itself from the set.
\<close>

definition handleStorageUpdate :: "nat \<Rightarrow> int \<Rightarrow> StorageCache \<Rightarrow> world \<Rightarrow> world" where
  "handleStorageUpdate c now updatedCache w =
     (case enqueue c (Update updatedCache now) w of
        Inr w' \<Rightarrow> w'
      | Inl e \<Rightarrow> w\<lparr>storageSubscribers := removeAll c (storageSubscribers w)\<rparr>)"

text \<open>
  \<^verbatim>\<open>notifySubscribers\<close> (storage/route.ts 100-110, stream/route.ts 102-112):
  \<^verbatim>\<open>Set.forEach\<close> visits the members in insertion order, and skips one that was deleted
  before its turn. The call runs in one turn of the event loop; \<open>now\<close> is the clock
  during it.
\<close>

definition visit :: "int \<Rightarrow> nat \<Rightarrow> world \<Rightarrow> world" where
  "visit now c w =
     (if c \<in> set (storageSubscribers w)
      then handleStorageUpdate c now (storageCache w) w else w)"

definition notifySubscribers :: "int \<Rightarrow> world \<Rightarrow> world" where
  "notifySubscribers now w =
     fold (visit now) (storageSubscribers w) (w\<lparr>notifyCalls := Suc (notifyCalls w)\<rparr>)"

section \<open>Background refresh scheduler\<close>

text \<open>The \<^verbatim>\<open>finally\<close> block of \<^verbatim>\<open>runStorageCheckJob\<close> (storage/route.ts 179-187).\<close>

definition finally_block :: "route \<Rightarrow> world \<Rightarrow> world" where
  "finally_block m w =
     (let w1 = w\<lparr>backgroundJobRunning := False\<rparr>;
          w2 = (case backgroundJobTimer w1 of Some h \<Rightarrow> clearTimeout h w1 | None \<Rightarrow> w1);
          (h, w3) = setTimeout m w2
      in w3\<lparr>backgroundJobTimer := Some h\<rparr>)"

text \<open>
  The callback of \<^verbatim>\<open>batch.map\<close> from the return of the probe on: merge, and set
  \<^verbatim>\<open>hasUpdates\<close> (the second component) when the merge reported a change.
\<close>

definition probeSettled :: "string \<Rightarrow> about_reply \<Rightarrow> int \<Rightarrow> world \<times> bool \<Rightarrow> world \<times> bool" where
  "probeSettled remote reply now st =
     (let w = fst st;
          result = checkRemoteStorage remote reply now;
          ((cache, proto), changed) = mergeOne (storageCache w) (cachePrototype w) remote result
      in (w\<lparr>storageCache := cache, cachePrototype := proto,
            mergeLog := mergeLog w @ [(remote, changed)]\<rparr>,
          snd st \<or> changed))"

subsection \<open>One cycle, run against a script of the daemon's answers\<close>

text \<open>
  A script gives the answer to \<^verbatim>\<open>listremotes\<close>, then for each batch the probes in the
  order in which they complete, each with the daemon's answer and the clock at that
  moment, and the clock when the subscribers are notified. It has one entry per batch.
\<close>

record script =
  listed :: list_reply
  settled :: "(string \<times> about_reply \<times> int) list list"
  notifiedAt :: int

text \<open>
  The callbacks of one batch, in completion order. The result is \<open>None\<close> when the script
  does not fit the batch (a completion of a probe that is not outstanding, or a probe
  that never completes).
\<close>

fun settleAll :: "(string \<times> about_reply \<times> int) list \<Rightarrow> string list \<Rightarrow> world \<times> bool
    \<Rightarrow> (world \<times> bool) option" where
  "settleAll [] out st = (if out = [] then Some st else None)"
| "settleAll ((remote, reply, now) # cs) out st =
     (if remote \<in> set out
      then settleAll cs (remove1 remote out) (probeSettled remote reply now st)
      else None)"

definition concurrentLimit :: nat where
  "concurrentLimit = 5"

text \<open>The \<^verbatim>\<open>while\<close> loop (storage/route.ts 132-168): \<^verbatim>\<open>splice(0, 5)\<close>, then the batch.\<close>

fun runBatches :: "(string \<times> about_reply \<times> int) list list \<Rightarrow> string list \<Rightarrow> world \<times> bool
    \<Rightarrow> (world \<times> bool) option" where
  "runBatches ss [] st = (if ss = [] then Some st else None)"
| "runBatches [] (r # rs) st = None"
| "runBatches (s # ss) (r # rs) st =
     (let b = take concurrentLimit (r # rs);
          rest = drop concurrentLimit (r # rs);
          w = fst st
      in case settleAll s b (w\<lparr>aboutCalls := aboutCalls w @ [b]\<rparr>, snd st) of
           None \<Rightarrow> None
         | Some st' \<Rightarrow> runBatches ss rest st')"

text \<open>
  \<^verbatim>\<open>runStorageCheckJob\<close> (storage/route.ts 113-188, stream/route.ts 115-190,
  lib/background-storage.ts). Nothing between \<^verbatim>\<open>try\<close> and \<^verbatim>\<open>finally\<close> throws:
  \<^verbatim>\<open>getRemotesList\<close> and \<^verbatim>\<open>checkRemoteStorage\<close> catch their failures,
  \<^verbatim>\<open>Promise.allSettled\<close> never rejects and \<^verbatim>\<open>notifySubscribers\<close> catches what a
  callback throws; so the \<^verbatim>\<open>catch\<close> block is never entered, and the \<^verbatim>\<open>finally\<close>
  block ends every cycle.
\<close>

definition runStorageCheckJob :: "route \<Rightarrow> script \<Rightarrow> world \<Rightarrow> world option" where
  "runStorageCheckJob m s w =
     (if backgroundJobRunning w then Some w
      else let w1 = w\<lparr>backgroundJobRunning := True\<rparr>;
               rs = getRemotesList (listed s)
           in if rs = [] then Some (finally_block m w1)
              else case runBatches (settled s) rs (w1, False) of
                     None \<Rightarrow> None
                   | Some (w2, updates) \<Rightarrow>
                       Some (finally_block m
                         (if updates then notifySubscribers (notifiedAt s) w2 else w2)))"

subsection \<open>The cycle as the event loop runs it\<close>

text \<open>
  A call of \<^verbatim>\<open>runStorageCheckJob\<close> up to its first \<^verbatim>\<open>await\<close> (storage/route.ts 113-122):
  the test of the flag and its setting happen in one turn of the event loop.
\<close>

definition runStorageCheckJob_call :: "route \<Rightarrow> world \<Rightarrow> world" where
  "runStorageCheckJob_call m w =
     (if backgroundJobRunning w then w
      else w\<lparr>backgroundJobRunning := True, jobs := jobs w @ [AwaitList m]\<rparr>)"

definition startBackgroundJob :: "route \<Rightarrow> world \<Rightarrow> world" where
  "startBackgroundJob m w =
     (if backgroundJobTimer w = None then runStorageCheckJob_call m w else w)"

text \<open>
  \<^verbatim>\<open>initializeBackgroundJob\<close> of lib/background-storage.ts, run when the server start
  imports the module: once per process, it starts the checks of the daemon that precede
  the first cycle.
\<close>

definition initializeBackgroundJob :: "world \<Rightarrow> world" where
  "initializeBackgroundJob w =
     (if backgroundJobInitialized w then w
      else w\<lparr>backgroundJobInitialized := True, startupPending := True\<rparr>)"

text \<open>
  \<^verbatim>\<open>tryStartJob\<close> finds the daemon ready and calls \<^verbatim>\<open>runStorageCheckJob\<close>; or it
  gives up after its last attempt.
\<close>

definition daemonReady :: "world \<Rightarrow> world option" where
  "daemonReady w =
     (if startupPending w
      then Some (runStorageCheckJob_call BackgroundService (w\<lparr>startupPending := False\<rparr>))
      else None)"

definition startupGivesUp :: "world \<Rightarrow> world option" where
  "startupGivesUp w = (if startupPending w then Some (w\<lparr>startupPending := False\<rparr>) else None)"

definition dropJob :: "nat \<Rightarrow> world \<Rightarrow> world" where
  "dropJob i w = w\<lparr>jobs := take i (jobs w) @ drop (Suc i) (jobs w)\<rparr>"

text \<open>
  One turn of the \<^verbatim>\<open>while\<close> loop up to \<^verbatim>\<open>await Promise.allSettled\<close>: the batch is
  spliced off and all its requests are issued.
\<close>

definition startBatch :: "nat \<Rightarrow> frame \<Rightarrow> world \<Rightarrow> world" where
  "startBatch i fr w =
     (let b = take concurrentLimit (remotesToCheck fr);
          rest = drop concurrentLimit (remotesToCheck fr)
      in w\<lparr>jobs := (jobs w)[i := AwaitBatch (fr\<lparr>remotesToCheck := rest, batch := b, outstanding := b\<rparr>)],
           aboutCalls := aboutCalls w @ [b]\<rparr>)"

text \<open>The cycle \<open>i\<close> resumes after \<^verbatim>\<open>getRemotesList\<close>.\<close>

definition listSettles :: "nat \<Rightarrow> list_reply \<Rightarrow> world \<Rightarrow> world option" where
  "listSettles i reply w =
     (if i < length (jobs w) then
        (case jobs w ! i of
           AwaitList m \<Rightarrow>
             (let rs = getRemotesList reply
              in if rs = [] then Some (finally_block m (dropJob i w))
                 else Some (startBatch i \<lparr>owner = m, remotes = rs, remotesToCheck = rs,
                              batch = [], outstanding = [], hasUpdates = False\<rparr> w))
         | AwaitBatch fr \<Rightarrow> None)
      else None)"

text \<open>One callback of the batch of cycle \<open>i\<close> resumes after its probe.\<close>

definition probeSettles :: "nat \<Rightarrow> string \<Rightarrow> about_reply \<Rightarrow> int \<Rightarrow> world \<Rightarrow> world option" where
  "probeSettles i remote reply now w =
     (if i < length (jobs w) then
        (case jobs w ! i of
           AwaitBatch fr \<Rightarrow>
             if remote \<in> set (outstanding fr)
             then (let st = probeSettled remote reply now (w, hasUpdates fr);
                       fr' = fr\<lparr>outstanding := remove1 remote (outstanding fr), hasUpdates := snd st\<rparr>
                   in Some ((fst st)\<lparr>jobs := (jobs w)[i := AwaitBatch fr']\<rparr>))
             else None
         | AwaitList m \<Rightarrow> None)
      else None)"

text \<open>
  The cycle \<open>i\<close> resumes after \<^verbatim>\<open>Promise.allSettled\<close>: the next batch, or the end of the
  loop, the notification and the \<^verbatim>\<open>finally\<close> block.
\<close>

definition batchSettles :: "nat \<Rightarrow> int \<Rightarrow> world \<Rightarrow> world option" where
  "batchSettles i now w =
     (if i < length (jobs w) then
        (case jobs w ! i of
           AwaitBatch fr \<Rightarrow>
             if outstanding fr = []
             then (if remotesToCheck fr \<noteq> [] then Some (startBatch i fr w)
                   else (let w1 = dropJob i w;
                             w2 = (if hasUpdates fr then notifySubscribers now w1 else w1)
                         in Some (finally_block (owner fr) w2)))
             else None
         | AwaitList m \<Rightarrow> None)
      else None)"

text \<open>An armed timer fires: it calls the \<^verbatim>\<open>runStorageCheckJob\<close> of the module that armed it.\<close>

definition timerFires :: "nat \<Rightarrow> world \<Rightarrow> world option" where
  "timerFires h w =
     (case map_of (timers w) h of
        Some m \<Rightarrow> Some (runStorageCheckJob_call m (clearTimeout h w))
      | None \<Rightarrow> None)"

section \<open>Endpoints\<close>

datatype pull_response =
    SnapshotOk StorageCache "int option"
  | RefreshOk string
  | Failure500 string

text \<open>\<^verbatim>\<open>Math.min\<close> over the \<^verbatim>\<open>lastUpdated\<close> of all entries, \<^verbatim>\<open>null\<close> for the empty cache.\<close>

definition oldest :: "StorageCache \<Rightarrow> int option" where
  "oldest cache = (if cache = [] then None else Some (Min (set (map (lastUpdated \<circ> snd) cache))))"

text \<open>
  \<^verbatim>\<open>GET\<close> of storage/route.ts (199-222). The handler takes no request and reads no
  session. Nothing in its \<^verbatim>\<open>try\<close> block throws, so its \<^verbatim>\<open>catch\<close> is never entered.
\<close>

definition GET_storage :: "world \<Rightarrow> pull_response \<times> world" where
  "GET_storage w =
     (let w1 = startBackgroundJob PullRoute w
      in (SnapshotOk (storageCache w1) (oldest (storageCache w1)), w1))"

text \<open>\<^verbatim>\<open>POST\<close> of storage/route.ts (225-248), the manual refresh.\<close>

definition POST_storage :: "world \<Rightarrow> pull_response \<times> world" where
  "POST_storage w =
     (let w1 = (case backgroundJobTimer w of
                  Some h \<Rightarrow> (clearTimeout h w)\<lparr>backgroundJobTimer := None\<rparr>
                | None \<Rightarrow> w);
          w2 = runStorageCheckJob_call PullRoute w1
      in (RefreshOk ''Storage refresh triggered'', w2))"

datatype stream_response = Unauthorized nat | EventStream nat

text \<open>
  \<^verbatim>\<open>GET\<close> of storage/stream/route.ts (201-289): \<open>session\<close> is what
  \<^verbatim>\<open>getServerSession\<close> returned. A new connection gets the next number; its sink
  receives the initial snapshot and its handler joins the subscribers. The heartbeat of
  a connection, which writes to its own sink and touches nothing else but its own
  subscription, is left out.
\<close>

definition GET_stream :: "string option \<Rightarrow> int \<Rightarrow> world \<Rightarrow> stream_response \<times> world" where
  "GET_stream session now w =
     (case session of
        None \<Rightarrow> (Unauthorized 401, w)
      | Some user \<Rightarrow>
          (let w1 = startBackgroundJob StreamRoute w;
               c = connSeq w1;
               w2 = w1\<lparr>sinks := (sinks w1)(c := \<lparr>closed = False,
                          delivered = [Initial (storageCache w1) now]\<rparr>),
                        connSeq := Suc c\<rparr>;
               w3 = w2\<lparr>storageSubscribers :=
                          (if c \<in> set (storageSubscribers w2) then storageSubscribers w2
                           else storageSubscribers w2 @ [c])\<rparr>
           in (EventStream c, w3)))"

text \<open>The \<^verbatim>\<open>abort\<close> listener of connection \<open>c\<close> (stream/route.ts 270-276).\<close>

definition abortListener :: "nat \<Rightarrow> world \<Rightarrow> world" where
  "abortListener c w = w\<lparr>storageSubscribers := removeAll c (storageSubscribers w)\<rparr>"

text \<open>The sink of the existing connection \<open>c\<close> is closed from outside.\<close>

definition sinkCloses :: "nat \<Rightarrow> world \<Rightarrow> world option" where
  "sinkCloses c w =
     (if c < connSeq w
      then Some (w\<lparr>sinks := (sinks w)(c := (sinks w c)\<lparr>closed := True\<rparr>)\<rparr>)
      else None)"

text \<open>
  \<^verbatim>\<open>config.matcher\<close> of middleware.ts: the session middleware runs on a path unless,
  after the leading slash, it starts with \<^verbatim>\<open>api\<close>, \<^verbatim>\<open>_next/static\<close>,
  \<^verbatim>\<open>_next/image\<close> or \<^verbatim>\<open>favicon.ico\<close> (whose dot is the wildcard of the regular
  expression).
\<close>

definition matcher :: "string \<Rightarrow> bool" where
  "matcher path =
     (case path of
        [] \<Rightarrow> False
      | c # p \<Rightarrow> c = CHR ''/'' \<and>
          \<not> (prefix ''api'' p \<or> prefix ''_next/static'' p \<or> prefix ''_next/image'' p \<or>
             (prefix ''favicon'' p \<and> 8 \<le> length p \<and> prefix ''ico'' (drop 8 p))))"

section \<open>Health check of one remote\<close>

datatype health_status = healthy | token_expired | status_error

text \<open>
  The JSON answer of the health check with its HTTP status: the fields
  \<^verbatim>\<open>success\<close>, \<^verbatim>\<open>status\<close>, \<^verbatim>\<open>error\<close> and \<^verbatim>\<open>data\<close>.
\<close>

record health_response =
  httpStatus :: nat
  success :: bool
  status :: "health_status option"
  errorText :: "string option"
  sizes :: "(int option \<times> int option \<times> int option) option"

text \<open>The test for an expired token (check/route.ts 37-40).\<close>

definition tokenExpired :: "nat \<Rightarrow> string option \<Rightarrow> bool" where
  "tokenExpired st err =
     (st = 500 \<and>
      (case err of
         None \<Rightarrow> False
       | Some e \<Rightarrow> e \<noteq> [] \<and>
           (str_includes e ''invalid_grant'' \<or> str_includes e ''token expired'' \<or>
            str_includes e (''couldn'' @ [CHR 0x27] @ ''t fetch token''))))"

text \<open>
  \<^verbatim>\<open>POST\<close> of check/route.ts (5-97): \<open>remote\<close> is the field of the request body (empty
  when missing), \<open>reply\<close> the daemon's answer to \<^verbatim>\<open>operations/about\<close>.
\<close>

definition check_POST :: "string \<Rightarrow> about_reply \<Rightarrow> health_response" where
  "check_POST remote reply =
     (if remote = [] then
        \<lparr>httpStatus = 400, success = False, status = None,
         errorText = Some ''Remote parameter is required'', sizes = None\<rparr>
      else case reply of
        AboutNotOk st err statusText \<Rightarrow>
          if tokenExpired st err then
            \<lparr>httpStatus = 200, success = False, status = Some token_expired,
             errorText = Some ''Authentication token expired'', sizes = None\<rparr>
          else
            \<lparr>httpStatus = st, success = False, status = Some status_error,
             errorText = Some (''Failed to check remote: '' @ or_else err statusText),
             sizes = None\<rparr>
      | AboutOk t u f \<Rightarrow>
          \<lparr>httpStatus = 200, success = True, status = Some healthy, errorText = None,
           sizes = Some (t, u, f)\<rparr>
      | AboutThrows e \<Rightarrow>
          (case e of
             ErrorObj name msg \<Rightarrow>
               if name = ''TimeoutError'' \<or> str_includes msg ''timeout'' then
                 \<lparr>httpStatus = 408, success = False, status = Some status_error,
                  errorText = Some ''Remote connection timeout'', sizes = None\<rparr>
               else if str_includes msg ''ECONNREFUSED'' then
                 \<lparr>httpStatus = 503, success = False, status = Some status_error,
                  errorText = Some ''Cannot connect to rclone daemon'', sizes = None\<rparr>
               else
                 \<lparr>httpStatus = 500, success = False, status = Some status_error,
                  errorText = Some msg, sizes = None\<rparr>
           | NonError \<Rightarrow>
               \<lparr>httpStatus = 500, success = False, status = Some status_error,
                errorText = Some ''Health check failed'', sizes = None\<rparr>))"

section \<open>The events of the process\<close>

datatype event =
    ServerStarts
  | DaemonReady
  | StartupGivesUp
  | TimerFires nat
  | PullGET
  | PullPOST
  | StreamGET "string option" int
  | Abort nat
  | SinkCloses nat
  | ListSettles nat list_reply
  | ProbeSettles nat string about_reply int
  | BatchSettles nat int

fun step :: "event \<Rightarrow> world \<Rightarrow> world option" where
  "step ServerStarts w = Some (initializeBackgroundJob w)"
| "step DaemonReady w = daemonReady w"
| "step StartupGivesUp w = startupGivesUp w"
| "step (TimerFires h) w = timerFires h w"
| "step PullGET w = Some (snd (GET_storage w))"
| "step PullPOST w = Some (snd (POST_storage w))"
| "step (StreamGET session now) w = Some (snd (GET_stream session now w))"
| "step (Abort c) w = Some (abortListener c w)"
| "step (SinkCloses c) w = sinkCloses c w"
| "step (ListSettles i reply) w = listSettles i reply w"
| "step (ProbeSettles i remote reply now) w = probeSettles i remote reply now w"
| "step (BatchSettles i now) w = batchSettles i now w"

fun exec :: "event list \<Rightarrow> world \<Rightarrow> world option" where
  "exec [] w = Some w"
| "exec (e # es) w = (case step e w of None \<Rightarrow> None | Some w' \<Rightarrow> exec es w')"

text \<open>The states of the process: whatever a sequence of events leads to after start.\<close>

inductive reachable :: "world \<Rightarrow> bool" where
  start: "reachable boot"
| next_event: "reachable w \<Longrightarrow> step e w = Some w' \<Longrightarrow> reachable w'"



section \<open>Invariant of the scheduler\<close>

text \<open>A timer is armed, and the global holds its handle.\<close>

definition armed :: "world \<Rightarrow> bool" where
  "armed w = (\<exists>h m. backgroundJobTimer w = Some h \<and> timers w = [(h, m)])"

text \<open>
  At most one cycle is suspended, the flag is set exactly while one is, the only timer
  that can be armed is the one the global holds, and between cycles it is armed whenever
  the global holds a handle.
\<close>

definition sched_inv :: "world \<Rightarrow> bool" where
  "sched_inv w =
     (length (jobs w) \<le> 1 \<and> (backgroundJobRunning w \<longleftrightarrow> jobs w \<noteq> []) \<and>
      (timers w = [] \<or> armed w) \<and>
      (\<not> backgroundJobRunning w \<longrightarrow> backgroundJobTimer w = None \<or> armed w))"

text \<open>
  The consecutive batches of a list of remotes: the first \<open>concurrentLimit\<close> of them,
  then the batches of the rest.
\<close>

function batchesOf :: "string list \<Rightarrow> string list list" where
  "batchesOf rs =
     (if rs = [] then [] else take concurrentLimit rs # batchesOf (drop concurrentLimit rs))"
  by pat_completeness auto
termination
  by (relation "measure length") (auto simp: concurrentLimit_def)

declare batchesOf.simps [simp del]

text \<open>
  The events by which the event loop runs a script when nothing else happens meanwhile:
  the listing settles, then for each batch its probes in the order of the script and
  \<^verbatim>\<open>Promise.allSettled\<close>.
\<close>

definition probeEvent :: "string \<times> about_reply \<times> int \<Rightarrow> event" where
  "probeEvent c = ProbeSettles 0 (fst c) (fst (snd c)) (snd (snd c))"

definition scriptEvents :: "script \<Rightarrow> event list" where
  "scriptEvents s = ListSettles 0 (listed s) #
     concat (map (\<lambda>c. map probeEvent c @ [BatchSettles 0 (notifiedAt s)]) (settled s))"


text \<open>A cache entry that is what some probe of its remote returned.\<close>

definition from_probe :: "string \<times> StorageData \<Rightarrow> bool" where
  "from_probe e = (\<exists>reply now. snd e = checkRemoteStorage (fst e) reply now)"

section \<open>What each piece of code changes\<close>

lemma finally_block_fields [simp]:
  "backgroundJobRunning (finally_block m w) = False"
  "backgroundJobTimer (finally_block m w) = Some (timerSeq w)"
  "timers (finally_block m w) =
     (case backgroundJobTimer w of None \<Rightarrow> timers w | Some h \<Rightarrow> filter (\<lambda>t. fst t \<noteq> h) (timers w))
       @ [(timerSeq w, m)]"
  "timerSeq (finally_block m w) = Suc (timerSeq w)"
  "jobs (finally_block m w) = jobs w"
  "storageCache (finally_block m w) = storageCache w"
  "storageSubscribers (finally_block m w) = storageSubscribers w"
  "sinks (finally_block m w) = sinks w"
  "connSeq (finally_block m w) = connSeq w"
  "aboutCalls (finally_block m w) = aboutCalls w"
  "mergeLog (finally_block m w) = mergeLog w"
  "notifyCalls (finally_block m w) = notifyCalls w"
  by (simp_all add: finally_block_def setTimeout_def clearTimeout_def Let_def split: option.split)

lemma notifySubscribers_fold:
  "notifySubscribers now w = fold (visit now) (storageSubscribers w) (w\<lparr>notifyCalls := Suc (notifyCalls w)\<rparr>)"
  by (fact notifySubscribers_def)

lemma visit_fields [simp]:
  "backgroundJobRunning (visit now c w) = backgroundJobRunning w"
  "backgroundJobTimer (visit now c w) = backgroundJobTimer w"
  "timers (visit now c w) = timers w"
  "timerSeq (visit now c w) = timerSeq w"
  "jobs (visit now c w) = jobs w"
  "storageCache (visit now c w) = storageCache w"
  "connSeq (visit now c w) = connSeq w"
  "aboutCalls (visit now c w) = aboutCalls w"
  "mergeLog (visit now c w) = mergeLog w"
  "notifyCalls (visit now c w) = notifyCalls w"
  by (simp_all add: visit_def handleStorageUpdate_def enqueue_def)

lemma fold_visit_fields [simp]:
  "backgroundJobRunning (fold (visit now) cs w) = backgroundJobRunning w"
  "backgroundJobTimer (fold (visit now) cs w) = backgroundJobTimer w"
  "timers (fold (visit now) cs w) = timers w"
  "timerSeq (fold (visit now) cs w) = timerSeq w"
  "jobs (fold (visit now) cs w) = jobs w"
  "storageCache (fold (visit now) cs w) = storageCache w"
  "connSeq (fold (visit now) cs w) = connSeq w"
  "aboutCalls (fold (visit now) cs w) = aboutCalls w"
  "mergeLog (fold (visit now) cs w) = mergeLog w"
  "notifyCalls (fold (visit now) cs w) = notifyCalls w"
  by (induction cs arbitrary: w; simp)+

lemma notifySubscribers_fields [simp]:
  "backgroundJobRunning (notifySubscribers now w) = backgroundJobRunning w"
  "backgroundJobTimer (notifySubscribers now w) = backgroundJobTimer w"
  "timers (notifySubscribers now w) = timers w"
  "timerSeq (notifySubscribers now w) = timerSeq w"
  "jobs (notifySubscribers now w) = jobs w"
  "storageCache (notifySubscribers now w) = storageCache w"
  "connSeq (notifySubscribers now w) = connSeq w"
  "aboutCalls (notifySubscribers now w) = aboutCalls w"
  "mergeLog (notifySubscribers now w) = mergeLog w"
  "notifyCalls (notifySubscribers now w) = Suc (notifyCalls w)"
  by (simp_all add: notifySubscribers_fold)

lemma call_fields [simp]:
  "backgroundJobRunning (runStorageCheckJob_call m w) = True"
  "backgroundJobTimer (runStorageCheckJob_call m w) = backgroundJobTimer w"
  "timers (runStorageCheckJob_call m w) = timers w"
  "timerSeq (runStorageCheckJob_call m w) = timerSeq w"
  "jobs (runStorageCheckJob_call m w) = (if backgroundJobRunning w then jobs w else jobs w @ [AwaitList m])"
  "storageCache (runStorageCheckJob_call m w) = storageCache w"
  "storageSubscribers (runStorageCheckJob_call m w) = storageSubscribers w"
  "sinks (runStorageCheckJob_call m w) = sinks w"
  "connSeq (runStorageCheckJob_call m w) = connSeq w"
  "aboutCalls (runStorageCheckJob_call m w) = aboutCalls w"
  "mergeLog (runStorageCheckJob_call m w) = mergeLog w"
  "notifyCalls (runStorageCheckJob_call m w) = notifyCalls w"
  by (simp_all add: runStorageCheckJob_call_def)

lemma dropJob_fields [simp]:
  "storageCache (dropJob i w) = storageCache w"
  "timerSeq (dropJob i w) = timerSeq w"
  "timers (dropJob i w) = timers w"
  "backgroundJobTimer (dropJob i w) = backgroundJobTimer w"
  "backgroundJobRunning (dropJob i w) = backgroundJobRunning w"
  "storageSubscribers (dropJob i w) = storageSubscribers w"
  "sinks (dropJob i w) = sinks w"
  "connSeq (dropJob i w) = connSeq w"
  "aboutCalls (dropJob i w) = aboutCalls w"
  "mergeLog (dropJob i w) = mergeLog w"
  "notifyCalls (dropJob i w) = notifyCalls w"
  by (simp_all add: dropJob_def)

lemma probeSettled_fields [simp]:
  "backgroundJobRunning (fst (probeSettled r reply now st)) = backgroundJobRunning (fst st)"
  "backgroundJobTimer (fst (probeSettled r reply now st)) = backgroundJobTimer (fst st)"
  "timers (fst (probeSettled r reply now st)) = timers (fst st)"
  "timerSeq (fst (probeSettled r reply now st)) = timerSeq (fst st)"
  "jobs (fst (probeSettled r reply now st)) = jobs (fst st)"
  "storageSubscribers (fst (probeSettled r reply now st)) = storageSubscribers (fst st)"
  "sinks (fst (probeSettled r reply now st)) = sinks (fst st)"
  "connSeq (fst (probeSettled r reply now st)) = connSeq (fst st)"
  "aboutCalls (fst (probeSettled r reply now st)) = aboutCalls (fst st)"
  "notifyCalls (fst (probeSettled r reply now st)) = notifyCalls (fst st)"
  "storageCache (fst (probeSettled r reply now st)) =
     fst (fst (mergeOne (storageCache (fst st)) (cachePrototype (fst st)) r
       (checkRemoteStorage r reply now)))"
  "cachePrototype (fst (probeSettled r reply now st)) =
     snd (fst (mergeOne (storageCache (fst st)) (cachePrototype (fst st)) r
       (checkRemoteStorage r reply now)))"
  "mergeLog (fst (probeSettled r reply now st)) =
     mergeLog (fst st) @ [(r, snd (mergeOne (storageCache (fst st)) (cachePrototype (fst st)) r
       (checkRemoteStorage r reply now)))]"
  "snd (probeSettled r reply now st) =
     (snd st \<or> snd (mergeOne (storageCache (fst st)) (cachePrototype (fst st)) r
       (checkRemoteStorage r reply now)))"
  by (simp_all add: probeSettled_def Let_def split_def)

section \<open>The scheduler invariant holds in every state\<close>

lemma sched_inv_boot: "sched_inv boot"
  by (simp add: sched_inv_def boot_def)

lemma sched_inv_step:
  assumes "sched_inv w" and "step e w = Some w'"
  shows "sched_inv w'"
proof (cases e)
  case (TimerFires h)
  with assms show ?thesis
    by (auto simp: sched_inv_def armed_def timerFires_def clearTimeout_def split: option.splits if_splits)
next
  case PullGET
  with assms show ?thesis
    by (auto simp: sched_inv_def armed_def GET_storage_def startBackgroundJob_def Let_def split: option.splits if_splits)
next
  case PullPOST
  with assms show ?thesis
    by (auto simp: sched_inv_def armed_def POST_storage_def clearTimeout_def Let_def split: option.splits if_splits)
next
  case (StreamGET session now)
  with assms show ?thesis
    by (auto simp: sched_inv_def armed_def GET_stream_def startBackgroundJob_def Let_def split: option.splits if_splits)
next
  case ServerStarts
  with assms show ?thesis
    by (auto simp: sched_inv_def armed_def initializeBackgroundJob_def split: if_splits)
next
  case DaemonReady
  with assms show ?thesis
    by (auto simp: sched_inv_def armed_def daemonReady_def split: if_splits)
next
  case StartupGivesUp
  with assms show ?thesis
    by (auto simp: sched_inv_def armed_def startupGivesUp_def split: if_splits)
next
  case (Abort c)
  with assms show ?thesis
    by (auto simp: sched_inv_def armed_def abortListener_def)
next
  case (SinkCloses c)
  with assms show ?thesis
    by (auto simp: sched_inv_def armed_def sinkCloses_def split: if_splits)
next
  case (ListSettles i reply)
  with assms show ?thesis
    by (auto simp: sched_inv_def armed_def listSettles_def startBatch_def dropJob_def Let_def
        split: option.splits if_splits job.splits)
next
  case (ProbeSettles i remote reply now)
  with assms show ?thesis
    by (auto simp: sched_inv_def armed_def probeSettles_def Let_def
        split: option.splits if_splits job.splits)
next
  case (BatchSettles i now)
  with assms show ?thesis
    by (auto simp: sched_inv_def armed_def batchSettles_def startBatch_def dropJob_def Let_def
        split: option.splits if_splits job.splits)
qed

lemma reachable_sched_inv: "reachable w \<Longrightarrow> sched_inv w"
  by (induction rule: reachable.induct) (auto intro: sched_inv_boot sched_inv_step)

section \<open>Executions and the cache\<close>

lemma set_update_subset: "set (AList.update k v al) \<subseteq> insert (k, v) (set al)"
  by (induction al) auto

lemma mergeOne_set: "set (fst (fst (mergeOne cache proto k v))) \<subseteq> insert (k, v) (set cache)"
  using set_update_subset[of k v cache] by (auto simp: mergeOne_def cacheSet_def Let_def)

lemma step_cache_probe:
  "step (ProbeSettles i r reply now) w = Some w' \<Longrightarrow>
     storageCache w' = fst (fst (mergeOne (storageCache w) (cachePrototype w) r
       (checkRemoteStorage r reply now)))"
  by (auto simp: probeSettles_def Let_def split: if_splits job.splits)

lemma step_cache_other:
  "step e w = Some w' \<Longrightarrow> (\<And>i r reply now. e \<noteq> ProbeSettles i r reply now) \<Longrightarrow>
     storageCache w' = storageCache w"
  by (cases e) (auto simp: timerFires_def clearTimeout_def GET_storage_def POST_storage_def GET_stream_def
      startBackgroundJob_def abortListener_def sinkCloses_def listSettles_def batchSettles_def
      initializeBackgroundJob_def daemonReady_def startupGivesUp_def
      startBatch_def dropJob_def Let_def split: option.splits if_splits job.splits)

lemma reachable_from_probe: "reachable w \<Longrightarrow> \<forall>e \<in> set (storageCache w). from_probe e"
proof (induction rule: reachable.induct)
  case start
  then show ?case by (simp add: boot_def)
next
  case (next_event w e w')
  show ?case
  proof (cases "\<exists>i r reply now. e = ProbeSettles i r reply now")
    case True
    then obtain i r reply now where e: "e = ProbeSettles i r reply now" by blast
    with next_event(2) have "storageCache w' = fst (fst (mergeOne (storageCache w) (cachePrototype w) r
        (checkRemoteStorage r reply now)))"
      by (simp only: step_cache_probe)
    then have "set (storageCache w') \<subseteq> insert (r, checkRemoteStorage r reply now) (set (storageCache w))"
      by (simp only: mergeOne_set)
    moreover have "from_probe (r, checkRemoteStorage r reply now)"
      unfolding from_probe_def by auto
    ultimately show ?thesis using next_event.IH by auto
  next
    case False
    then have "storageCache w' = storageCache w"
      using step_cache_other[OF next_event(2)] by blast
    with next_event.IH show ?thesis by simp
  qed
qed

lemma reachable_exec: "reachable w \<Longrightarrow> exec es w = Some w' \<Longrightarrow> reachable w'"
proof (induction es arbitrary: w)
  case Nil
  then show ?case by simp
next
  case (Cons e es)
  then show ?case by (auto split: option.splits intro: reachable.next_event)
qed

lemma exec_append: "exec (es @ fs) w = (case exec es w of None \<Rightarrow> None | Some w' \<Rightarrow> exec fs w')"
  by (induction es arbitrary: w) (auto split: option.splits)

section \<open>Strings\<close>

lemma decimal_500: "decimal 500 = ''500''"
  by (simp add: decimal.simps digit_def)

section \<open>One publish\<close>

lemma visit_open:
  "c \<in> set (storageSubscribers w) \<Longrightarrow> \<not> closed (sinks w c) \<Longrightarrow>
     visit now c w = w\<lparr>sinks := (sinks w)(c := (sinks w c)\<lparr>delivered :=
        delivered (sinks w c) @ [Update (storageCache w) now]\<rparr>)\<rparr>"
  by (simp add: visit_def handleStorageUpdate_def enqueue_def)

lemma visit_closed:
  "c \<in> set (storageSubscribers w) \<Longrightarrow> closed (sinks w c) \<Longrightarrow>
     visit now c w = w\<lparr>storageSubscribers := removeAll c (storageSubscribers w)\<rparr>"
  by (simp add: visit_def handleStorageUpdate_def enqueue_def)

lemma fold_visit_subscribers:
  "distinct cs \<Longrightarrow> set cs \<subseteq> set (storageSubscribers w) \<Longrightarrow>
     storageSubscribers (fold (visit now) cs w)
       = filter (\<lambda>c. c \<notin> set cs \<or> \<not> closed (sinks w c)) (storageSubscribers w)"
proof (induction cs arbitrary: w)
  case Nil
  then show ?case by simp
next
  case (Cons c cs)
  have cin: "c \<in> set (storageSubscribers w)" and cs: "set cs \<subseteq> set (storageSubscribers w)"
    and cnot: "c \<notin> set cs" and d: "distinct cs"
    using Cons.prems by auto
  show ?case
  proof (cases "closed (sinks w c)")
    case True
    let ?w1 = "w\<lparr>storageSubscribers := removeAll c (storageSubscribers w)\<rparr>"
    have v: "visit now c w = ?w1" by (rule visit_closed[OF cin True])
    have sub: "set cs \<subseteq> set (storageSubscribers ?w1)" using cs cnot by auto
    have "storageSubscribers (fold (visit now) cs ?w1)
            = filter (\<lambda>x. x \<notin> set cs \<or> \<not> closed (sinks ?w1 x)) (storageSubscribers ?w1)"
      by (rule Cons.IH[OF d sub])
    also have "\<dots> = filter (\<lambda>x. x \<notin> set cs \<or> \<not> closed (sinks w x)) (filter (\<lambda>x. c \<noteq> x) (storageSubscribers w))"
      by (simp add: removeAll_filter_not_eq)
    also have "\<dots> = filter (\<lambda>x. x \<notin> set (c # cs) \<or> \<not> closed (sinks w x)) (storageSubscribers w)"
      using True by (auto intro: filter_cong)
    finally show ?thesis by (simp add: v)
  next
    case False
    let ?s = "(sinks w c)\<lparr>delivered := delivered (sinks w c) @ [Update (storageCache w) now]\<rparr>"
    let ?w1 = "w\<lparr>sinks := (sinks w)(c := ?s)\<rparr>"
    have v: "visit now c w = ?w1" by (rule visit_open[OF cin False])
    have sub: "set cs \<subseteq> set (storageSubscribers ?w1)" using cs by simp
    have cl: "closed (sinks ?w1 x) = closed (sinks w x)" for x by simp
    have "storageSubscribers (fold (visit now) cs ?w1)
            = filter (\<lambda>x. x \<notin> set cs \<or> \<not> closed (sinks ?w1 x)) (storageSubscribers ?w1)"
      by (rule Cons.IH[OF d sub])
    also have "\<dots> = filter (\<lambda>x. x \<notin> set cs \<or> \<not> closed (sinks w x)) (storageSubscribers w)"
      by (simp only: cl) simp
    also have "\<dots> = filter (\<lambda>x. x \<notin> set (c # cs) \<or> \<not> closed (sinks w x)) (storageSubscribers w)"
      using False by (auto intro: filter_cong)
    finally show ?thesis by (simp add: v)
  qed
qed

lemma fold_visit_sinks:
  "distinct cs \<Longrightarrow> set cs \<subseteq> set (storageSubscribers w) \<Longrightarrow>
     sinks (fold (visit now) cs w) x
       = (if x \<in> set cs \<and> \<not> closed (sinks w x)
          then (sinks w x)\<lparr>delivered := delivered (sinks w x) @ [Update (storageCache w) now]\<rparr>
          else sinks w x)"
proof (induction cs arbitrary: w)
  case Nil
  then show ?case by simp
next
  case (Cons c cs)
  have cin: "c \<in> set (storageSubscribers w)" and cs: "set cs \<subseteq> set (storageSubscribers w)"
    and cnot: "c \<notin> set cs" and d: "distinct cs"
    using Cons.prems by auto
  show ?case
  proof (cases "closed (sinks w c)")
    case True
    let ?w1 = "w\<lparr>storageSubscribers := removeAll c (storageSubscribers w)\<rparr>"
    have v: "visit now c w = ?w1" by (rule visit_closed[OF cin True])
    have sub: "set cs \<subseteq> set (storageSubscribers ?w1)" using cs cnot by auto
    have "sinks (fold (visit now) cs ?w1) x
       = (if x \<in> set cs \<and> \<not> closed (sinks ?w1 x)
          then (sinks ?w1 x)\<lparr>delivered := delivered (sinks ?w1 x) @ [Update (storageCache ?w1) now]\<rparr>
          else sinks ?w1 x)"
      by (rule Cons.IH[OF d sub])
    then show ?thesis using True by (auto simp: v)
  next
    case False
    let ?s = "(sinks w c)\<lparr>delivered := delivered (sinks w c) @ [Update (storageCache w) now]\<rparr>"
    let ?w1 = "w\<lparr>sinks := (sinks w)(c := ?s)\<rparr>"
    have v: "visit now c w = ?w1" by (rule visit_open[OF cin False])
    have sub: "set cs \<subseteq> set (storageSubscribers ?w1)" using cs by simp
    have "sinks (fold (visit now) cs ?w1) x
       = (if x \<in> set cs \<and> \<not> closed (sinks ?w1 x)
          then (sinks ?w1 x)\<lparr>delivered := delivered (sinks ?w1 x) @ [Update (storageCache ?w1) now]\<rparr>
          else sinks ?w1 x)"
      by (rule Cons.IH[OF d sub])
    then show ?thesis using False cnot by (auto simp: v)
  qed
qed

section \<open>One batch\<close>

lemma not_inherited_get:
  "\<not> inherited proto k \<Longrightarrow> cacheGet cache proto k = optional JsRecord (map_of cache k)"
  by (cases "map_of cache k") (simp_all add: inherited_def cacheGet_def optional_def)

lemma not_inherited_name: "\<not> inherited proto k \<Longrightarrow> k \<noteq> ''__proto__''"
  by (auto simp: inherited_def cacheGet_def split: option.splits)


lemma hasChanged_own:
  "hasChanged (optional JsRecord old) new =
     (case old of
        None \<Rightarrow> True
      | Some r \<Rightarrow> total r \<noteq> total new \<or> used r \<noteq> used new \<or> error r \<noteq> error new)"
  by (cases old) (simp_all add: hasChanged_def optional_def)

lemma mergeOne_not_inherited:
  assumes "\<not> inherited proto k"
  shows "snd (mergeOne cache proto k v) =
           (case map_of cache k of
              None \<Rightarrow> True
            | Some r \<Rightarrow> total r \<noteq> total v \<or> used r \<noteq> used v \<or> error r \<noteq> error v)"
    and "fst (mergeOne cache proto k v) =
           (if snd (mergeOne cache proto k v) then (AList.update k v cache, proto) else (cache, proto))"
  using not_inherited_name[OF assms]
  by (simp_all add: mergeOne_def Let_def not_inherited_get[OF assms] hasChanged_own cacheSet_def)

lemma mergeOne_unchanged:
  "\<not> snd (mergeOne cache proto k v) \<Longrightarrow> fst (mergeOne cache proto k v) = (cache, proto)"
  by (simp add: mergeOne_def Let_def)



lemma settleAll_frame:
  "settleAll cs out st = Some st' \<Longrightarrow>
     backgroundJobRunning (fst st') = backgroundJobRunning (fst st) \<and>
     backgroundJobTimer (fst st') = backgroundJobTimer (fst st) \<and>
     timers (fst st') = timers (fst st) \<and>
     timerSeq (fst st') = timerSeq (fst st) \<and>
     jobs (fst st') = jobs (fst st) \<and>
     storageSubscribers (fst st') = storageSubscribers (fst st) \<and>
     sinks (fst st') = sinks (fst st) \<and>
     connSeq (fst st') = connSeq (fst st) \<and>
     aboutCalls (fst st') = aboutCalls (fst st) \<and>
     notifyCalls (fst st') = notifyCalls (fst st)"
proof (induction cs out st rule: settleAll.induct)
  case (1 out st)
  then show ?case by (simp split: if_splits)
next
  case (2 remote reply now cs out st)
  from "2.prems" have r: "remote \<in> set out"
    and s: "settleAll cs (remove1 remote out) (probeSettled remote reply now st) = Some st'"
    by (simp_all split: if_splits)
  from "2.IH"[OF r s] show ?case by simp
qed





lemma settleAll_log:
  "settleAll cs out st = Some st' \<Longrightarrow>
     \<exists>L. mergeLog (fst st') = mergeLog (fst st) @ L \<and> length L = length out \<and>
         snd st' = (snd st \<or> True \<in> snd ` set L)"
proof (induction cs out st rule: settleAll.induct)
  case (1 out st)
  then have "out = []" and "st' = st" by (simp_all split: if_splits)
  then show ?case by (intro exI[of _ "[]"]) simp
next
  case (2 remote reply now cs out st)
  from "2.prems" have r: "remote \<in> set out"
    and s: "settleAll cs (remove1 remote out) (probeSettled remote reply now st) = Some st'"
    by (simp_all split: if_splits)
  let ?st1 = "probeSettled remote reply now st"
  from "2.IH"[OF r s] obtain L where
    L: "mergeLog (fst st') = mergeLog (fst ?st1) @ L \<and> length L = length (remove1 remote out) \<and>
        snd st' = (snd ?st1 \<or> True \<in> snd ` set L)" ..
  let ?c = "snd (mergeOne (storageCache (fst st)) (cachePrototype (fst st)) remote
      (checkRemoteStorage remote reply now))"
  have a: "mergeLog (fst st') = mergeLog (fst st) @ ((remote, ?c) # L)"
    using L by simp
  have b: "length ((remote, ?c) # L) = length out"
    using L r length_pos_if_in_set[OF r] by (simp add: length_remove1)
  have "snd ?st1 = (snd st \<or> ?c)" by simp
  with L have c: "snd st' = (snd st \<or> True \<in> snd ` set ((remote, ?c) # L))"
    by (cases ?c) simp_all
  show ?case
    by (rule exI[of _ "(remote, ?c) # L"]) (simp only: a b c simp_thms)
qed

section \<open>The loop over the batches\<close>

lemma batchesOf_Nil [simp]: "batchesOf [] = []"
  by (simp add: batchesOf.simps)





lemma runBatches_frame:
  "runBatches ss rs st = Some st' \<Longrightarrow>
     backgroundJobRunning (fst st') = backgroundJobRunning (fst st) \<and>
     backgroundJobTimer (fst st') = backgroundJobTimer (fst st) \<and>
     timers (fst st') = timers (fst st) \<and>
     timerSeq (fst st') = timerSeq (fst st) \<and>
     jobs (fst st') = jobs (fst st) \<and>
     storageSubscribers (fst st') = storageSubscribers (fst st) \<and>
     sinks (fst st') = sinks (fst st) \<and>
     connSeq (fst st') = connSeq (fst st) \<and>
     notifyCalls (fst st') = notifyCalls (fst st)"
proof (induction ss rs st rule: runBatches.induct)
  case (1 ss st)
  then show ?case by (simp split: if_splits)
next
  case (2 r rs st)
  then show ?case by simp
next
  case (3 s ss r rs st)
  let ?b = "take concurrentLimit (r # rs)"
  let ?st0 = "((fst st)\<lparr>aboutCalls := aboutCalls (fst st) @ [?b]\<rparr>, snd st)"
  from "3.prems" obtain st1 where s1: "settleAll s ?b ?st0 = Some st1"
    and s2: "runBatches ss (drop concurrentLimit (r # rs)) st1 = Some st'"
    by (auto simp: Let_def split: option.splits)
  from "3.IH"[OF refl refl refl s1 s2] settleAll_frame[OF s1] show ?case by simp
qed




lemma runBatches_log:
  "runBatches ss rs st = Some st' \<Longrightarrow>
     \<exists>L. mergeLog (fst st') = mergeLog (fst st) @ L \<and> length L = length rs \<and>
         snd st' = (snd st \<or> True \<in> snd ` set L)"
proof (induction ss rs st rule: runBatches.induct)
  case (1 ss st)
  then have "st' = st" by (simp split: if_splits)
  then show ?case by (intro exI[of _ "[]"]) simp
next
  case (2 r rs st)
  then show ?case by simp
next
  case (3 s ss r rs st)
  let ?b = "take concurrentLimit (r # rs)"
  let ?rest = "drop concurrentLimit (r # rs)"
  let ?st0 = "((fst st)\<lparr>aboutCalls := aboutCalls (fst st) @ [?b]\<rparr>, snd st)"
  from "3.prems" obtain st1 where s1: "settleAll s ?b ?st0 = Some st1"
    and s2: "runBatches ss ?rest st1 = Some st'"
    by (auto simp: Let_def split: option.splits)
  from settleAll_log[OF s1] obtain L1 where
    L1: "mergeLog (fst st1) = mergeLog (fst ?st0) @ L1 \<and> length L1 = length ?b \<and>
         snd st1 = (snd ?st0 \<or> True \<in> snd ` set L1)" ..
  from "3.IH"[OF refl refl refl s1 s2] obtain L2 where
    L2: "mergeLog (fst st') = mergeLog (fst st1) @ L2 \<and> length L2 = length ?rest \<and>
         snd st' = (snd st1 \<or> True \<in> snd ` set L2)" ..
  have a: "mergeLog (fst st') = mergeLog (fst st) @ (L1 @ L2)"
    using L1 L2 by simp
  have "length ?b + length ?rest = length (r # rs)"
    by (metis append_take_drop_id length_append)
  then have b: "length (L1 @ L2) = length (r # rs)"
    using L1 L2 by simp
  have c: "snd st' = (snd st \<or> True \<in> snd ` set (L1 @ L2))"
    using L1 L2 by (simp add: image_Un)
  show ?case
    by (rule exI[of _ "L1 @ L2"]) (simp only: a b c simp_thms)
qed

section \<open>One cycle\<close>

lemma runStorageCheckJob_running:
  "backgroundJobRunning w \<Longrightarrow> runStorageCheckJob m s w = Some w"
  by (simp add: runStorageCheckJob_def)

lemma runStorageCheckJob_empty:
  "\<not> backgroundJobRunning w \<Longrightarrow> getRemotesList (listed s) = [] \<Longrightarrow>
     runStorageCheckJob m s w = Some (finally_block m (w\<lparr>backgroundJobRunning := True\<rparr>))"
  by (simp add: runStorageCheckJob_def)

lemma runStorageCheckJob_batches:
  "\<not> backgroundJobRunning w \<Longrightarrow> getRemotesList (listed s) \<noteq> [] \<Longrightarrow>
     runStorageCheckJob m s w =
       (case runBatches (settled s) (getRemotesList (listed s)) (w\<lparr>backgroundJobRunning := True\<rparr>, False) of
          None \<Rightarrow> None
        | Some st \<Rightarrow> Some (finally_block m
              (if snd st then notifySubscribers (notifiedAt s) (fst st) else fst st)))"
  by (simp add: runStorageCheckJob_def Let_def split: option.split prod.split)

lemma runStorageCheckJob_cases:
  assumes "runStorageCheckJob m s w = Some w'"
  obtains (busy) "backgroundJobRunning w" "w' = w"
  | (none) "\<not> backgroundJobRunning w" "getRemotesList (listed s) = []"
      "w' = finally_block m (w\<lparr>backgroundJobRunning := True\<rparr>)"
  | (batches) w2 u where "\<not> backgroundJobRunning w" "getRemotesList (listed s) \<noteq> []"
      "runBatches (settled s) (getRemotesList (listed s)) (w\<lparr>backgroundJobRunning := True\<rparr>, False)
         = Some (w2, u)"
      "w' = finally_block m (if u then notifySubscribers (notifiedAt s) w2 else w2)"
proof (cases "backgroundJobRunning w")
  case True
  from assms have "w' = w" by (simp add: runStorageCheckJob_running[OF True])
  then show ?thesis by (rule busy[OF True])
next
  case idle: False
  show ?thesis
  proof (cases "getRemotesList (listed s) = []")
    case True
    from assms have "w' = finally_block m (w\<lparr>backgroundJobRunning := True\<rparr>)"
      by (simp add: runStorageCheckJob_empty[OF idle True])
    then show ?thesis by (rule none[OF idle True])
  next
    case False
    from assms have c: "(case runBatches (settled s) (getRemotesList (listed s))
           (w\<lparr>backgroundJobRunning := True\<rparr>, False) of
          None \<Rightarrow> None
        | Some st \<Rightarrow> Some (finally_block m
              (if snd st then notifySubscribers (notifiedAt s) (fst st) else fst st))) = Some w'"
      by (simp only: runStorageCheckJob_batches[OF idle False])
    show ?thesis
    proof (cases "runBatches (settled s) (getRemotesList (listed s))
           (w\<lparr>backgroundJobRunning := True\<rparr>, False)")
      case None
      with c show ?thesis by simp
    next
      case (Some st)
      with c have "finally_block m
              (if snd st then notifySubscribers (notifiedAt s) (fst st) else fst st) = w'"
        by (simp only: option.case option.inject)
      then have b: "w' = finally_block m
              (if snd st then notifySubscribers (notifiedAt s) (fst st) else fst st)" ..
      have a: "runBatches (settled s) (getRemotesList (listed s))
           (w\<lparr>backgroundJobRunning := True\<rparr>, False) = Some (fst st, snd st)"
        using Some by simp
      show ?thesis by (rule batches[OF idle False a b])
    qed
  qed
qed

lemma runStorageCheckJob_log:
  assumes "runStorageCheckJob m s w = Some w'"
  shows "\<exists>L. mergeLog w' = mergeLog w @ L \<and>
             notifyCalls w' = (if True \<in> snd ` set L then Suc (notifyCalls w) else notifyCalls w)"
  using assms
proof (cases rule: runStorageCheckJob_cases)
  case busy
  then show ?thesis by (intro exI[of _ "[]"]) simp
next
  case none
  then show ?thesis by (intro exI[of _ "[]"]) simp
next
  case (batches w2 u)
  from runBatches_log[OF batches(3)] obtain L where
    L: "mergeLog w2 = mergeLog w @ L \<and> length L = length (getRemotesList (listed s)) \<and>
        u = (True \<in> snd ` set L)" by auto
  from runBatches_frame[OF batches(3)] have n: "notifyCalls w2 = notifyCalls w" by simp
  have "mergeLog w' = mergeLog w @ L"
    using L batches(4) by (cases u) simp_all
  moreover have "notifyCalls w' = (if True \<in> snd ` set L then Suc (notifyCalls w) else notifyCalls w)"
    using L n batches(4) by (cases u) simp_all
  ultimately show ?thesis by blast
qed

section \<open>The outstanding probes in every state\<close>






section \<open>The end of a cycle\<close>

lemma step_jobs_shrink:
  assumes "step e w = Some w'" and "length (jobs w') < length (jobs w)"
  shows "\<exists>m i. i < length (jobs w) \<and> (w' = finally_block m (dropJob i w) \<or>
               (\<exists>now. w' = finally_block m (notifySubscribers now (dropJob i w))))"
proof (cases e)
  case (TimerFires h)
  with assms show ?thesis
    by (auto simp: timerFires_def clearTimeout_def split: option.splits if_splits)
next
  case PullGET
  with assms show ?thesis
    by (auto simp: GET_storage_def startBackgroundJob_def Let_def split: if_splits)
next
  case PullPOST
  with assms show ?thesis
    by (auto simp: POST_storage_def clearTimeout_def Let_def split: option.splits if_splits)
next
  case (StreamGET session now)
  with assms show ?thesis
    by (auto simp: GET_stream_def startBackgroundJob_def Let_def split: option.splits if_splits)
next
  case ServerStarts
  with assms show ?thesis
    by (auto simp: initializeBackgroundJob_def split: if_splits)
next
  case DaemonReady
  with assms show ?thesis
    by (auto simp: daemonReady_def split: if_splits)
next
  case StartupGivesUp
  with assms show ?thesis
    by (auto simp: startupGivesUp_def split: if_splits)
next
  case (Abort c)
  with assms show ?thesis by (auto simp: abortListener_def)
next
  case (SinkCloses c)
  with assms show ?thesis by (auto simp: sinkCloses_def split: if_splits)
next
  case (ListSettles i reply)
  with assms show ?thesis
    by (auto simp: listSettles_def startBatch_def Let_def split: if_splits job.splits)
next
  case (ProbeSettles i remote reply now)
  with assms show ?thesis
    by (auto simp: probeSettles_def Let_def split: if_splits job.splits)
next
  case (BatchSettles i now)
  with assms show ?thesis
    by (auto simp: batchSettles_def startBatch_def Let_def split: if_splits job.splits)
qed

lemma cycle_end:
  assumes "sched_inv w" and "step e w = Some w'" and "length (jobs w') < length (jobs w)"
  shows "\<not> backgroundJobRunning w' \<and> jobs w' = [] \<and> backgroundJobTimer w' = Some (timerSeq w) \<and>
         (\<exists>m. timers w' = [(timerSeq w, m)])"
proof -
  from assms(1,3) have l: "length (jobs w) = 1" and t: "timers w = [] \<or> armed w"
    by (auto simp: sched_inv_def)
  from l have d: "i < length (jobs w) \<Longrightarrow> jobs (dropJob i w) = []" for i
    by (cases "jobs w") (auto simp: dropJob_def)
  have f: "(case backgroundJobTimer w of None \<Rightarrow> timers w
            | Some h \<Rightarrow> filter (\<lambda>t. fst t \<noteq> h) (timers w)) = []"
    using t by (auto simp: armed_def split: option.splits)
  from step_jobs_shrink[OF assms(2,3)] obtain m i where "i < length (jobs w)" and
    "w' = finally_block m (dropJob i w) \<or>
       (\<exists>now. w' = finally_block m (notifySubscribers now (dropJob i w)))" by blast
  then show ?thesis using d[of i] f by (cases "backgroundJobTimer w") auto
qed

lemma step_goes_on:
  assumes "step e w = Some w'" and "\<not> length (jobs w') < length (jobs w)"
    and "backgroundJobRunning w"
  shows "backgroundJobRunning w' \<and> set (timers w') \<subseteq> set (timers w)"
proof (cases e)
  case ServerStarts
  with assms show ?thesis by (auto simp: initializeBackgroundJob_def split: if_splits)
next
  case DaemonReady
  with assms show ?thesis by (auto simp: daemonReady_def split: if_splits)
next
  case StartupGivesUp
  with assms show ?thesis by (auto simp: startupGivesUp_def split: if_splits)
next
  case (TimerFires h)
  with assms show ?thesis
    by (auto simp: timerFires_def clearTimeout_def split: option.splits if_splits)
next
  case PullGET
  with assms show ?thesis
    by (auto simp: GET_storage_def startBackgroundJob_def Let_def split: if_splits)
next
  case PullPOST
  with assms show ?thesis
    by (auto simp: POST_storage_def clearTimeout_def Let_def split: option.splits if_splits)
next
  case (StreamGET session now)
  with assms show ?thesis
    by (auto simp: GET_stream_def startBackgroundJob_def Let_def split: option.splits if_splits)
next
  case (Abort c)
  with assms show ?thesis by (auto simp: abortListener_def)
next
  case (SinkCloses c)
  with assms show ?thesis by (auto simp: sinkCloses_def split: if_splits)
next
  case (ListSettles i reply)
  with assms show ?thesis
    by (auto simp: listSettles_def startBatch_def dropJob_def Let_def split: if_splits job.splits)
next
  case (ProbeSettles i remote reply now)
  with assms show ?thesis
    by (auto simp: probeSettles_def Let_def split: if_splits job.splits)
next
  case (BatchSettles i now)
  with assms show ?thesis
    by (auto simp: batchSettles_def startBatch_def dropJob_def Let_def split: if_splits job.splits)
qed

text \<open>
  A cycle in progress with no timer armed stays so, step after step, until the step that
  ends it, which arms a new timer.
\<close>

lemma quiet_step:
  assumes "sched_inv w" and "backgroundJobRunning w" and "timers w = []" and "step e w = Some w'"
  shows "(backgroundJobRunning w' \<and> timers w' = []) \<or>
         (\<not> backgroundJobRunning w' \<and> backgroundJobTimer w' = Some (timerSeq w) \<and>
          (\<exists>m. timers w' = [(timerSeq w, m)]))"
proof (cases "length (jobs w') < length (jobs w)")
  case True
  from cycle_end[OF assms(1,4) True] show ?thesis by blast
next
  case False
  from step_goes_on[OF assms(4) False assms(2)] assms(3) show ?thesis by simp
qed

lemma quiet_exec:
  "sched_inv w \<Longrightarrow> backgroundJobRunning w \<Longrightarrow> timers w = [] \<Longrightarrow> exec es w = Some w1 \<Longrightarrow>
     (backgroundJobRunning w1 \<and> timers w1 = []) \<or>
     (\<exists>es1 e es2 v v'. es = es1 @ e # es2 \<and> exec es1 w = Some v \<and>
         backgroundJobRunning v \<and> timers v = [] \<and> step e v = Some v' \<and>
         \<not> backgroundJobRunning v' \<and> backgroundJobTimer v' = Some (timerSeq v) \<and>
         (\<exists>m. timers v' = [(timerSeq v, m)]))"
proof (induction es arbitrary: w)
  case Nil
  then show ?case by simp
next
  case (Cons e es)
  from Cons.prems(4) obtain w2 where s: "step e w = Some w2" and x: "exec es w2 = Some w1"
    by (auto split: option.splits)
  from quiet_step[OF Cons.prems(1,2,3) s] show ?case
  proof
    assume q: "backgroundJobRunning w2 \<and> timers w2 = []"
    then have r2: "backgroundJobRunning w2" and t2: "timers w2 = []" by simp_all
    from Cons.IH[OF sched_inv_step[OF Cons.prems(1) s] r2 t2 x] show ?thesis
    proof
      assume "backgroundJobRunning w1 \<and> timers w1 = []"
      then show ?thesis by blast
    next
      assume "\<exists>es1 e es2 v v'. es = es1 @ e # es2 \<and> exec es1 w2 = Some v \<and>
         backgroundJobRunning v \<and> timers v = [] \<and> step e v = Some v' \<and>
         \<not> backgroundJobRunning v' \<and> backgroundJobTimer v' = Some (timerSeq v) \<and>
         (\<exists>m. timers v' = [(timerSeq v, m)])"
      then obtain es1 e' es2 v v' where d: "es = es1 @ e' # es2 \<and> exec es1 w2 = Some v \<and>
         backgroundJobRunning v \<and> timers v = [] \<and> step e' v = Some v' \<and>
         \<not> backgroundJobRunning v' \<and> backgroundJobTimer v' = Some (timerSeq v) \<and>
         (\<exists>m. timers v' = [(timerSeq v, m)])"
        by blast
      then have "e # es = (e # es1) @ e' # es2 \<and> exec (e # es1) w = Some v \<and>
         backgroundJobRunning v \<and> timers v = [] \<and> step e' v = Some v' \<and>
         \<not> backgroundJobRunning v' \<and> backgroundJobTimer v' = Some (timerSeq v) \<and>
         (\<exists>m. timers v' = [(timerSeq v, m)])"
        using s by simp
      then show ?thesis by blast
    qed
  next
    assume "\<not> backgroundJobRunning w2 \<and> backgroundJobTimer w2 = Some (timerSeq w) \<and>
          (\<exists>m. timers w2 = [(timerSeq w, m)])"
    then have "e # es = [] @ e # es \<and> exec [] w = Some w \<and>
         backgroundJobRunning w \<and> timers w = [] \<and> step e w = Some w2 \<and>
         \<not> backgroundJobRunning w2 \<and> backgroundJobTimer w2 = Some (timerSeq w) \<and>
         (\<exists>m. timers w2 = [(timerSeq w, m)])"
      using s Cons.prems(2,3) by simp
    then show ?thesis by blast
  qed
qed

lemma exec_snoc: "exec es w0 = Some w \<Longrightarrow> exec (es @ [e]) w0 = step e w"
  by (simp add: exec_append split: option.splits)

lemma exec_then: "exec es w0 = Some w \<Longrightarrow> exec (es @ fs) w0 = exec fs w"
  by (simp add: exec_append)

section \<open>A cycle that finds no remotes\<close>

lemma listSettles_empty:
  "i < length (jobs w) \<Longrightarrow> jobs w ! i = AwaitList m \<Longrightarrow> getRemotesList reply = [] \<Longrightarrow>
     listSettles i reply w = Some (finally_block m (dropJob i w))"
  by (simp add: listSettles_def)

lemma length_dropJob: "i < length (jobs w) \<Longrightarrow> length (jobs (dropJob i w)) < length (jobs w)"
  by (simp add: dropJob_def)

lemma probeSettles_list: "jobs w = [AwaitList m] \<Longrightarrow> probeSettles i r reply now w = None"
  by (cases i) (simp_all add: probeSettles_def)

lemma getRemotesList_fails:
  "getRemotesList_try reply = Inl e \<or> getRemotesList_try reply = Inr [] \<Longrightarrow> getRemotesList reply = []"
  by (auto simp: getRemotesList_def)

section \<open>The batches of a cycle\<close>










section \<open>A script is run by the event loop\<close>

lemma jobs_same: "jobs w = J \<Longrightarrow> w\<lparr>jobs := J\<rparr> = w"
  by simp

lemma probeSettled_jobs:
  "probeSettled r reply now (w\<lparr>jobs := J\<rparr>, u) =
     ((fst (probeSettled r reply now (w, u)))\<lparr>jobs := J\<rparr>, snd (probeSettled r reply now (w, u)))"
  by (simp add: probeSettled_def Let_def split_def)

lemma exec_probes:
  "settleAll cs out (wb, u) = Some st' \<Longrightarrow>
     exec (map probeEvent cs @ rest)
          (wb\<lparr>jobs := [AwaitBatch (fr\<lparr>outstanding := out, hasUpdates := u\<rparr>)]\<rparr>)
       = exec rest ((fst st')\<lparr>jobs := [AwaitBatch (fr\<lparr>outstanding := [], hasUpdates := snd st'\<rparr>)]\<rparr>)"
proof (induction cs arbitrary: out wb u)
  case Nil
  then have "out = []" and "st' = (wb, u)" by (simp_all split: if_splits)
  then show ?case by simp
next
  case (Cons c cs)
  obtain r reply now where c: "c = (r, reply, now)" by (cases c) auto
  from Cons.prems c have r: "r \<in> set out"
    and s: "settleAll cs (remove1 r out) (probeSettled r reply now (wb, u)) = Some st'"
    by (simp_all split: if_splits)
  let ?st = "probeSettled r reply now (wb, u)"
  let ?ws = "wb\<lparr>jobs := [AwaitBatch (fr\<lparr>outstanding := out, hasUpdates := u\<rparr>)]\<rparr>"
  have st: "step (probeEvent c) ?ws
      = Some ((fst ?st)\<lparr>jobs := [AwaitBatch (fr\<lparr>outstanding := remove1 r out, hasUpdates := snd ?st\<rparr>)]\<rparr>)"
    using r by (simp add: probeEvent_def c probeSettles_def probeSettled_jobs Let_def)
  have "settleAll cs (remove1 r out) (fst ?st, snd ?st) = Some st'"
    using s by (simp only: prod.collapse)
  note ih = Cons.IH[OF this]
  have "exec (map probeEvent (c # cs) @ rest) ?ws
      = exec (map probeEvent cs @ rest)
          ((fst ?st)\<lparr>jobs := [AwaitBatch (fr\<lparr>outstanding := remove1 r out, hasUpdates := snd ?st\<rparr>)]\<rparr>)"
    by (simp only: list.map append_Cons exec.simps st option.case)
  with ih show ?case by (simp only:)
qed

lemma startBatch_single:
  "remotesToCheck fr = rs \<Longrightarrow> hasUpdates fr = u \<Longrightarrow>
     startBatch 0 fr (wb\<lparr>jobs := [J]\<rparr>)
       = (wb\<lparr>aboutCalls := aboutCalls wb @ [take concurrentLimit rs]\<rparr>)
           \<lparr>jobs := [AwaitBatch ((fr\<lparr>remotesToCheck := drop concurrentLimit rs,
                                     batch := take concurrentLimit rs\<rparr>)
                                  \<lparr>outstanding := take concurrentLimit rs, hasUpdates := u\<rparr>)]\<rparr>"
  by (auto simp: startBatch_def Let_def)

lemma batchSettles_next:
  "outstanding fr = [] \<Longrightarrow> remotesToCheck fr \<noteq> [] \<Longrightarrow>
     step (BatchSettles 0 t) (wb\<lparr>jobs := [AwaitBatch fr]\<rparr>)
       = Some (startBatch 0 fr (wb\<lparr>jobs := [AwaitBatch fr]\<rparr>))"
  by (simp add: batchSettles_def)

lemma batchSettles_last:
  "outstanding fr = [] \<Longrightarrow> remotesToCheck fr = [] \<Longrightarrow> jobs wb = [] \<Longrightarrow>
     step (BatchSettles 0 t) (wb\<lparr>jobs := [AwaitBatch fr]\<rparr>)
       = Some (finally_block (owner fr) (if hasUpdates fr then notifySubscribers t wb else wb))"
proof -
  assume a: "outstanding fr = []" "remotesToCheck fr = []" "jobs wb = []"
  have "dropJob 0 (wb\<lparr>jobs := [AwaitBatch fr]\<rparr>) = wb\<lparr>jobs := []\<rparr>"
    by (simp add: dropJob_def)
  also have "\<dots> = wb" by (rule jobs_same[OF a(3)])
  finally have d: "dropJob 0 (wb\<lparr>jobs := [AwaitBatch fr]\<rparr>) = wb" .
  show ?thesis using a(1,2) by (simp add: batchSettles_def Let_def d)
qed

lemma exec_batches:
  "runBatches ss rs st = Some st2 \<Longrightarrow> rs \<noteq> [] \<Longrightarrow> jobs (fst st) = [] \<Longrightarrow>
     owner fr = m \<Longrightarrow> remotesToCheck fr = rs \<Longrightarrow> hasUpdates fr = snd st \<Longrightarrow>
     exec (concat (map (\<lambda>c. map probeEvent c @ [BatchSettles 0 t]) ss))
          (startBatch 0 fr ((fst st)\<lparr>jobs := [J]\<rparr>))
       = Some (finally_block m (if snd st2 then notifySubscribers t (fst st2) else fst st2))"
proof (induction ss rs st arbitrary: fr J rule: runBatches.induct)
  case (1 ss st)
  then show ?case by simp
next
  case (2 r rs st)
  then show ?case by simp
next
  case (3 s ss r rs st)
  let ?b = "take concurrentLimit (r # rs)"
  let ?rest = "drop concurrentLimit (r # rs)"
  let ?wb0 = "(fst st)\<lparr>aboutCalls := aboutCalls (fst st) @ [?b]\<rparr>"
  let ?fr1 = "fr\<lparr>remotesToCheck := ?rest, batch := ?b\<rparr>"
  let ?tail = "concat (map (\<lambda>c. map probeEvent c @ [BatchSettles 0 t]) ss)"
  from "3.prems"(1) obtain st1 where s1: "settleAll s ?b (?wb0, snd st) = Some st1"
    and s2: "runBatches ss ?rest st1 = Some st2"
    by (auto simp: Let_def split: option.splits)
  let ?fr2 = "?fr1\<lparr>outstanding := [], hasUpdates := snd st1\<rparr>"
  let ?ws1 = "(fst st1)\<lparr>jobs := [AwaitBatch ?fr2]\<rparr>"
  have j1: "jobs (fst st1) = []"
    using settleAll_frame[OF s1] "3.prems"(3) by simp
  have "exec (concat (map (\<lambda>c. map probeEvent c @ [BatchSettles 0 t]) (s # ss)))
          (startBatch 0 fr ((fst st)\<lparr>jobs := [J]\<rparr>))
      = exec (map probeEvent s @ (BatchSettles 0 t # ?tail))
          (?wb0\<lparr>jobs := [AwaitBatch (?fr1\<lparr>outstanding := ?b, hasUpdates := snd st\<rparr>)]\<rparr>)"
    by (simp only: startBatch_single[OF "3.prems"(5,6)] list.map concat.simps append_assoc append_Cons append_Nil)
  also have "\<dots> = exec (BatchSettles 0 t # ?tail) ?ws1"
    by (rule exec_probes[OF s1])
  finally have e: "exec (concat (map (\<lambda>c. map probeEvent c @ [BatchSettles 0 t]) (s # ss)))
          (startBatch 0 fr ((fst st)\<lparr>jobs := [J]\<rparr>)) = exec (BatchSettles 0 t # ?tail) ?ws1" .
  show ?case
  proof (cases "?rest = []")
    case True
    with s2 have ss: "ss = []" and st2: "st2 = st1" by (simp_all split: if_splits)
    have "step (BatchSettles 0 t) ?ws1
        = Some (finally_block (owner ?fr2) (if hasUpdates ?fr2 then notifySubscribers t (fst st1) else fst st1))"
      by (rule batchSettles_last) (simp_all add: True j1)
    then show ?thesis unfolding e using "3.prems"(4) by (simp add: ss st2)
  next
    case False
    have n: "step (BatchSettles 0 t) ?ws1 = Some (startBatch 0 ?fr2 ?ws1)"
      by (rule batchSettles_next) (use False in simp_all)
    have "exec ?tail (startBatch 0 ?fr2 ?ws1)
        = Some (finally_block m (if snd st2 then notifySubscribers t (fst st2) else fst st2))"
      by (rule "3.IH"[OF refl refl refl s1 s2 False j1]) (simp_all add: "3.prems"(4))
    then show ?thesis unfolding e by (simp only: exec.simps n option.case)
  qed
qed

text \<open>
  The run of a script is an execution of the process: from the state in which the
  trigger has just been called, the events of the script lead to the state the run
  returns.
\<close>

lemma script_is_execution:
  assumes "jobs w = []" and "\<not> backgroundJobRunning w"
    and "getRemotesList (listed s) = [] \<longrightarrow> settled s = []"
    and "runStorageCheckJob m s w = Some w'"
  shows "exec (scriptEvents s) (runStorageCheckJob_call m w) = Some w'"
proof -
  let ?w1 = "w\<lparr>backgroundJobRunning := True\<rparr>"
  have c: "runStorageCheckJob_call m w = ?w1\<lparr>jobs := [AwaitList m]\<rparr>"
    using assms(1,2) by (simp add: runStorageCheckJob_call_def)
  have j1: "jobs ?w1 = []" using assms(1) by simp
  from assms(4) show ?thesis
  proof (cases rule: runStorageCheckJob_cases)
    case busy
    with assms(2) show ?thesis by simp
  next
    case none
    have "dropJob 0 (?w1\<lparr>jobs := [AwaitList m]\<rparr>) = ?w1\<lparr>jobs := []\<rparr>"
      by (simp add: dropJob_def)
    also have "\<dots> = ?w1" by (rule jobs_same[OF j1])
    finally have d: "dropJob 0 (?w1\<lparr>jobs := [AwaitList m]\<rparr>) = ?w1" .
    from none(2) assms(3) have "settled s = []" by simp
    then show ?thesis
      by (simp add: scriptEvents_def c listSettles_def none(2,3) d)
  next
    case (batches w2 u)
    let ?fr = "\<lparr>owner = m, remotes = getRemotesList (listed s),
                 remotesToCheck = getRemotesList (listed s), batch = [], outstanding = [],
                 hasUpdates = False\<rparr>"
    have l: "step (ListSettles 0 (listed s)) (?w1\<lparr>jobs := [AwaitList m]\<rparr>)
        = Some (startBatch 0 ?fr (?w1\<lparr>jobs := [AwaitList m]\<rparr>))"
      using batches(2) by (simp add: listSettles_def Let_def)
    have "exec (concat (map (\<lambda>c. map probeEvent c @ [BatchSettles 0 (notifiedAt s)]) (settled s)))
            (startBatch 0 ?fr ((fst (?w1, False))\<lparr>jobs := [AwaitList m]\<rparr>))
        = Some (finally_block m (if snd (w2, u) then notifySubscribers (notifiedAt s) (fst (w2, u))
                                else fst (w2, u)))"
      by (rule exec_batches[OF batches(3) batches(2)]) (simp_all add: assms(1))
    then show ?thesis
      unfolding scriptEvents_def c by (simp only: exec.simps l option.case fst_conv snd_conv batches(4))
  qed
qed

section \<open>What a merge and a cycle report\<close>

text \<open>
  Under a name that the cache object does not inherit, a merge reports no change when the
  stored record and the new one agree on total, used and error, whatever their free and
  lastUpdated; it reports a change when one of the three differs, and when no record is
  stored for the remote.
\<close>

lemma mergeOne_reports:
  assumes "\<not> inherited proto remote"
  shows "map_of cache remote = Some old \<Longrightarrow> total old = total new \<Longrightarrow> used old = used new \<Longrightarrow>
           error old = error new \<Longrightarrow> \<not> snd (mergeOne cache proto remote new)"
    and "map_of cache remote = Some old \<Longrightarrow>
           total old \<noteq> total new \<or> used old \<noteq> used new \<or> error old \<noteq> error new \<Longrightarrow>
           snd (mergeOne cache proto remote new)"
    and "map_of cache remote = None \<Longrightarrow> snd (mergeOne cache proto remote new)"
  by (simp_all add: mergeOne_not_inherited(1)[OF assms])

text \<open>
  A cycle asks the hub to publish at most once, and it does so exactly when one of its
  merges (the entries the cycle added to the log of merges) reported a change.
\<close>

lemma cycle_publishes_iff_changed:
  assumes "runStorageCheckJob m s w = Some w'"
  shows "notifyCalls w' = Suc (notifyCalls w) \<or> notifyCalls w' = notifyCalls w"
    and "notifyCalls w' = Suc (notifyCalls w) \<longleftrightarrow>
           True \<in> snd ` set (drop (length (mergeLog w)) (mergeLog w'))"
proof -
  from runStorageCheckJob_log[OF assms] obtain L where
    L: "mergeLog w' = mergeLog w @ L"
    and n: "notifyCalls w' = (if True \<in> snd ` set L then Suc (notifyCalls w) else notifyCalls w)"
    by blast
  have d: "drop (length (mergeLog w)) (mergeLog w') = L" by (simp add: L)
  show "notifyCalls w' = Suc (notifyCalls w) \<or> notifyCalls w' = notifyCalls w"
    using n by (simp split: if_splits)
  show "notifyCalls w' = Suc (notifyCalls w) \<longleftrightarrow>
         True \<in> snd ` set (drop (length (mergeLog w)) (mergeLog w'))"
    unfolding d using n by (simp split: if_splits)
qed

section \<open>Claims\<close>

subsection \<open>C1: what counts as a change\<close>

text \<open>
  C1, where the code departs from it: the claim is that a merge reports a change whenever
  no record was stored for the remote. The merge reads the cache object under the name of
  the remote and takes what it finds for the stored record. Under a name that the object
  inherits from \<^verbatim>\<open>Object.prototype\<close> it finds a function: for the remote
  \<open>constructor\<close>, whose probe is answered without total and used, \<^verbatim>\<open>!oldData\<close> is false
  and total, used and error are undefined on both sides. In the first cycle of the
  process, over the empty cache, the merge of this remote reports no change, its record
  is not stored and nothing is published. The remote \<open>x\<close> with the same answer, over
  the same cache, is reported as changed.
\<close>

theorem C1_inherited_name_no_change:
  "mergeOne [] None ''constructor'' (checkRemoteStorage ''constructor'' (AboutOk None None None) 100)
     = (([], None), False) \<and>
   snd (mergeOne [] None ''x'' (checkRemoteStorage ''x'' (AboutOk None None None) 100)) \<and>
   map_option (\<lambda>w. (storageCache w, mergeLog w, notifyCalls w))
     (exec [PullGET, ListSettles 0 (ListOk (Some [''constructor''])),
            ProbeSettles 0 ''constructor'' (AboutOk None None None) 100, BatchSettles 0 101] boot)
   = Some ([], [(''constructor'', False)], 0)"
  by code_simp

subsection \<open>C2: one cycle at a time\<close>

text \<open>
  C2: whatever events the process has gone through, in whatever order (timers firing,
  requests to either endpoint, manual refreshes, answers of the daemon), at most one
  refresh cycle is in progress, and the flag is set exactly while one is (the start-up
  of the background service, which calls the same trigger, included). A call of the
  trigger while the flag is set changes nothing. Every step that ends a cycle, after an
  empty or failed listing as well as after the last batch, leaves the flag cleared and
  exactly one timer armed, a new one, whose handle the global holds. Nothing in a cycle
  throws past its own handlers: every failure is a value (an empty list, a failed
  record, a removed subscriber), so a cycle ends by one of these steps only.
\<close>

theorem C2_one_cycle_at_a_time:
  assumes "reachable w"
  shows "length (jobs w) \<le> 1 \<and> (backgroundJobRunning w \<longleftrightarrow> jobs w \<noteq> []) \<and>
         (backgroundJobRunning w \<longrightarrow> runStorageCheckJob_call m w = w) \<and>
         (step e w = Some w' \<and> length (jobs w') < length (jobs w) \<longrightarrow>
            \<not> backgroundJobRunning w' \<and> jobs w' = [] \<and>
            backgroundJobTimer w' = Some (timerSeq w) \<and> (\<exists>m'. timers w' = [(timerSeq w, m')]))"
proof -
  have i: "sched_inv w" by (rule reachable_sched_inv[OF assms])
  then have "length (jobs w) \<le> 1" and "backgroundJobRunning w \<longleftrightarrow> jobs w \<noteq> []"
    by (simp_all add: sched_inv_def)
  moreover have "backgroundJobRunning w \<longrightarrow> runStorageCheckJob_call m w = w"
    by (simp add: runStorageCheckJob_call_def)
  moreover have "step e w = Some w' \<and> length (jobs w') < length (jobs w) \<longrightarrow>
            \<not> backgroundJobRunning w' \<and> jobs w' = [] \<and>
            backgroundJobTimer w' = Some (timerSeq w) \<and> (\<exists>m'. timers w' = [(timerSeq w, m')])"
    using cycle_end[OF i] by blast
  ultimately show ?thesis by blast
qed

text \<open>
  C2, an instance: the pull endpoint starts a cycle; a streaming connection and a manual
  refresh arrive meanwhile and start none; the listing fails, and the cycle ends with
  the flag cleared and the timer armed.
\<close>

theorem C2_one_cycle_at_a_time_witness:
  "\<exists>w w'. exec [PullGET, StreamGET (Some ''ann'') 1, PullPOST] boot = Some w \<and> reachable w \<and>
       jobs w = [AwaitList PullRoute] \<and> backgroundJobRunning w \<and>
       runStorageCheckJob_call StreamRoute w = w \<and>
       step (ListSettles 0 (ListNotOk 502)) w = Some w' \<and> length (jobs w') < length (jobs w) \<and>
       \<not> backgroundJobRunning w' \<and> backgroundJobTimer w' = Some 0 \<and> timers w' = [(0, PullRoute)]"
proof -
  let ?es = "[PullGET, StreamGET (Some ''ann'') 1, PullPOST]"
  let ?e = "ListSettles 0 (ListNotOk 502)"
  have "map_option (\<lambda>w. (jobs w, backgroundJobRunning w, timerSeq w)) (exec ?es boot)
          = Some ([AwaitList PullRoute], True, 0)"
    by code_simp
  then obtain w where w: "exec ?es boot = Some w" and j: "jobs w = [AwaitList PullRoute]"
    and r: "backgroundJobRunning w" and t: "timerSeq w = 0"
    by auto
  have "map_option (\<lambda>w. (jobs w, timers w)) (exec (?es @ [?e]) boot) = Some ([], [(0, PullRoute)])"
    by code_simp
  then have "map_option (\<lambda>w. (jobs w, timers w)) (step ?e w) = Some ([], [(0, PullRoute)])"
    by (simp only: exec_snoc[OF w])
  then obtain w' where w': "step ?e w = Some w'" and j': "jobs w' = []"
    and t': "timers w' = [(0, PullRoute)]"
    by auto
  have rw: "reachable w" by (rule reachable_exec[OF reachable.start w])
  have l: "length (jobs w') < length (jobs w)" by (simp add: j j')
  from C2_one_cycle_at_a_time[OF rw, of StreamRoute ?e w'] r w' l t
  have "runStorageCheckJob_call StreamRoute w = w \<and> \<not> backgroundJobRunning w' \<and>
        backgroundJobTimer w' = Some 0"
    by simp
  with w rw j r w' l t' show ?thesis by blast
qed

subsection \<open>C3: the records of the cache\<close>

text \<open>
  C3, as stated, fails: the claim is that every stored record is healthy (no error, total
  and used present) or failed (error present, sizes absent). A successful answer of the
  daemon without the size fields is stored as it is: after one cycle over the remote
  \<open>x\<close> whose probe is answered by an empty object, the cache holds for \<open>x\<close> a record
  with neither an error nor a total.
\<close>

theorem C3_healthy_or_failed_counterexample:
  "map_option storageCache
     (exec [PullGET, ListSettles 0 (ListOk (Some [''x''])),
            ProbeSettles 0 ''x'' (AboutOk None None None) 1] boot)
   = Some [(''x'', \<lparr>total = None, used = None, free = None, lastUpdated = 1, error = None\<rparr>)]"
  by code_simp

text \<open>
  C3, amended: in every state the process can reach, every record of the cache is what a
  probe of its remote returned, and such a record is of one of two kinds: after a
  successful answer it has no error and its total, used and free are exactly the fields
  of the answer (each possibly absent); after any failure it has an error and none of
  the three sizes. So no stored record has an error together with a size. The probe
  turns whatever its \<^verbatim>\<open>try\<close> block throws into a record of the second kind.
\<close>

theorem C3_records_from_probes:
  assumes "reachable w" and "(k, r) \<in> set (storageCache w)"
  shows "\<exists>reply now. r = checkRemoteStorage k reply now \<and>
           (case checkRemoteStorage_try k reply now of
              Inr d \<Rightarrow> r = d
            | Inl e \<Rightarrow> error r \<noteq> None) \<and>
           (case reply of
              AboutOk t u f \<Rightarrow> error r = None \<and> total r = t \<and> used r = u \<and> free r = f
            | AboutNotOk st err txt \<Rightarrow>
                error r \<noteq> None \<and> total r = None \<and> used r = None \<and> free r = None
            | AboutThrows e \<Rightarrow>
                error r \<noteq> None \<and> total r = None \<and> used r = None \<and> free r = None)"
proof -
  from reachable_from_probe[OF assms(1)] assms(2) have "from_probe (k, r)" by blast
  then obtain reply now where r: "r = checkRemoteStorage k reply now"
    by (auto simp: from_probe_def)
  have "case checkRemoteStorage_try k reply now of Inr d \<Rightarrow> r = d | Inl e \<Rightarrow> error r \<noteq> None"
    unfolding r by (simp add: checkRemoteStorage_def split: sum.split)
  moreover have "case reply of
              AboutOk t u f \<Rightarrow> error r = None \<and> total r = t \<and> used r = u \<and> free r = f
            | AboutNotOk st err txt \<Rightarrow>
                error r \<noteq> None \<and> total r = None \<and> used r = None \<and> free r = None
            | AboutThrows e \<Rightarrow>
                error r \<noteq> None \<and> total r = None \<and> used r = None \<and> free r = None"
    unfolding r by (simp add: checkRemoteStorage_def checkRemoteStorage_try_def split: about_reply.split)
  ultimately show ?thesis using r by blast
qed

text \<open>C3, an instance: after a failed probe of \<open>x\<close> the cache holds its failed record.\<close>

theorem C3_records_from_probes_witness:
  "\<exists>w. exec [PullGET, ListSettles 0 (ListOk (Some [''x''])),
              ProbeSettles 0 ''x'' (AboutNotOk 500 (Some ''invalid_grant'') ''Internal Server Error'') 7] boot = Some w \<and>
       reachable w \<and>
       (''x'', \<lparr>total = None, used = None, free = None, lastUpdated = 7,
                error = Some ''API error: 500 - invalid_grant''\<rparr>) \<in> set (storageCache w) \<and>
       (\<exists>reply now.
           \<lparr>total = None, used = None, free = None, lastUpdated = 7,
             error = Some ''API error: 500 - invalid_grant''\<rparr> = checkRemoteStorage ''x'' reply now)"
proof -
  let ?es = "[PullGET, ListSettles 0 (ListOk (Some [''x''])),
              ProbeSettles 0 ''x'' (AboutNotOk 500 (Some ''invalid_grant'') ''Internal Server Error'') 7]"
  let ?r = "\<lparr>total = None, used = None, free = None, lastUpdated = 7,
                error = Some ''API error: 500 - invalid_grant''\<rparr>"
  have c: "map_option storageCache (exec ?es boot) = Some [(''x'', ?r)]"
    by code_simp
  then obtain w where w: "exec ?es boot = Some w" and cw: "storageCache w = [(''x'', ?r)]"
    by auto
  have rw: "reachable w"
    by (rule reachable_exec[OF reachable.start w])
  have m: "(''x'', ?r) \<in> set (storageCache w)"
    by (simp add: cw)
  from C3_records_from_probes[OF rw m] have "\<exists>reply now. ?r = checkRemoteStorage ''x'' reply now"
    by blast
  with w rw m show ?thesis by blast
qed

subsection \<open>C4: a cycle that cannot list the remotes\<close>

text \<open>
  C4: when the listing fails or returns no remote, the cycle, run from a state in which
  none is in progress, ends with the cache exactly as it was, the flag cleared, and a new
  timer armed whose handle the global holds. The same holds of the cycle as the event
  loop runs it: the step that resumes it after such a listing ends it with the cache
  untouched, the flag cleared and the timer armed; and while the cycle waits for the
  listing, no event at all changes the cache.
\<close>

theorem C4_empty_listing:
  assumes "getRemotesList_try reply = Inl e \<or> getRemotesList_try reply = Inr []"
  shows "(\<not> backgroundJobRunning w \<and> listed s = reply \<longrightarrow>
           (\<exists>w'. runStorageCheckJob m s w = Some w' \<and> storageCache w' = storageCache w \<and>
                 \<not> backgroundJobRunning w' \<and> backgroundJobTimer w' = Some (timerSeq w) \<and>
                 (timerSeq w, m) \<in> set (timers w'))) \<and>
         (i < length (jobs w) \<and> jobs w ! i = AwaitList m \<longrightarrow>
           (\<exists>w'. step (ListSettles i reply) w = Some w' \<and> storageCache w' = storageCache w \<and>
                 length (jobs w') < length (jobs w) \<and>
                 \<not> backgroundJobRunning w' \<and> backgroundJobTimer w' = Some (timerSeq w) \<and>
                 (timerSeq w, m) \<in> set (timers w'))) \<and>
         (jobs w = [AwaitList m] \<and> step ev w = Some w1 \<longrightarrow> storageCache w1 = storageCache w)"
proof -
  have g: "getRemotesList reply = []" by (rule getRemotesList_fails[OF assms])
  have a: "\<exists>w'. runStorageCheckJob m s w = Some w' \<and> storageCache w' = storageCache w \<and>
                 \<not> backgroundJobRunning w' \<and> backgroundJobTimer w' = Some (timerSeq w) \<and>
                 (timerSeq w, m) \<in> set (timers w')"
    if "\<not> backgroundJobRunning w" and "listed s = reply"
    using that g by (simp add: runStorageCheckJob_empty)
  have b: "\<exists>w'. step (ListSettles i reply) w = Some w' \<and> storageCache w' = storageCache w \<and>
                 length (jobs w') < length (jobs w) \<and>
                 \<not> backgroundJobRunning w' \<and> backgroundJobTimer w' = Some (timerSeq w) \<and>
                 (timerSeq w, m) \<in> set (timers w')"
    if "i < length (jobs w)" and "jobs w ! i = AwaitList m"
    using that g by (simp add: listSettles_empty length_dropJob)
  have c: "storageCache w1 = storageCache w" if j: "jobs w = [AwaitList m]" and st: "step ev w = Some w1"
  proof (cases "\<exists>i r rp now. ev = ProbeSettles i r rp now")
    case True
    with st probeSettles_list[OF j] show ?thesis by auto
  next
    case False
    then show ?thesis using step_cache_other[OF st] by blast
  qed
  from a b c show ?thesis by blast
qed

text \<open>
  C4, two instances: a second cycle whose listing is answered with the status 502 leaves
  the record of the first cycle in the cache; a first cycle with the same answer leaves
  the cache empty. Both arm the timer.
\<close>

theorem C4_empty_listing_witness:
  "getRemotesList_try (ListNotOk 502) = Inl (ErrorObj ''Error'' ''Failed to get remotes list: 502'') \<and>
   (\<exists>w w'. exec [PullGET, ListSettles 0 (ListOk (Some [''x''])),
                 ProbeSettles 0 ''x'' (AboutOk (Some 10) (Some 5) (Some 5)) 100, BatchSettles 0 101,
                 TimerFires 0] boot = Some w \<and>
           jobs w = [AwaitList PullRoute] \<and>
           storageCache w = [(''x'', \<lparr>total = Some 10, used = Some 5, free = Some 5,
                                     lastUpdated = 100, error = None\<rparr>)] \<and>
           step PullPOST w = Some (snd (POST_storage w)) \<and>
           storageCache (snd (POST_storage w)) = storageCache w \<and>
           step (ListSettles 0 (ListNotOk 502)) w = Some w' \<and>
           storageCache w' = storageCache w \<and> \<not> backgroundJobRunning w' \<and>
           backgroundJobTimer w' = Some 1 \<and> (1, PullRoute) \<in> set (timers w')) \<and>
   \<not> backgroundJobRunning boot \<and>
   (\<exists>w'. runStorageCheckJob StreamRoute \<lparr>listed = ListNotOk 502, settled = [], notifiedAt = 0\<rparr> boot
            = Some w' \<and>
         storageCache w' = [] \<and> \<not> backgroundJobRunning w' \<and> backgroundJobTimer w' = Some 0 \<and>
         (0, StreamRoute) \<in> set (timers w'))"
proof -
  let ?es = "[PullGET, ListSettles 0 (ListOk (Some [''x''])),
                 ProbeSettles 0 ''x'' (AboutOk (Some 10) (Some 5) (Some 5)) 100, BatchSettles 0 101,
                 TimerFires 0]"
  let ?s = "\<lparr>listed = ListNotOk 502, settled = [], notifiedAt = 0\<rparr>"
  have f: "getRemotesList_try (ListNotOk 502) = Inl (ErrorObj ''Error'' ''Failed to get remotes list: 502'')"
    by (simp add: getRemotesList_try_def decimal.simps digit_def)
  have "map_option (\<lambda>w. (jobs w, storageCache w, timerSeq w)) (exec ?es boot)
          = Some ([AwaitList PullRoute], [(''x'', \<lparr>total = Some 10, used = Some 5, free = Some 5,
                                     lastUpdated = 100, error = None\<rparr>)], 1)"
    by code_simp
  then obtain w where w: "exec ?es boot = Some w" and j: "jobs w = [AwaitList PullRoute]"
    and c: "storageCache w = [(''x'', \<lparr>total = Some 10, used = Some 5, free = Some 5,
                                     lastUpdated = 100, error = None\<rparr>)]"
    and t: "timerSeq w = 1"
    by auto
  from j have i: "0 < length (jobs w) \<and> jobs w ! 0 = AwaitList PullRoute" by simp
  have p: "step PullPOST w = Some (snd (POST_storage w))" by simp
  note th = C4_empty_listing[OF disjI1[OF f], where w = w and m = PullRoute and i = 0
      and s = ?s and ev = PullPOST and ?w1.0 = "snd (POST_storage w)"]
  from th[THEN conjunct2, THEN conjunct1] i t
  obtain w' where "step (ListSettles 0 (ListNotOk 502)) w = Some w'" "storageCache w' = storageCache w"
     "\<not> backgroundJobRunning w'" "backgroundJobTimer w' = Some 1" "(1, PullRoute) \<in> set (timers w')"
    by auto
  moreover from th[THEN conjunct2, THEN conjunct2] j p
  have "storageCache (snd (POST_storage w)) = storageCache w" by blast
  moreover have b: "\<not> backgroundJobRunning boot" "timerSeq boot = 0" "storageCache boot = []"
    by (simp_all add: boot_def)
  note th0 = C4_empty_listing[OF disjI1[OF f], where w = boot and m = StreamRoute and i = 0
      and s = ?s and ev = PullPOST and ?w1.0 = boot]
  from th0[THEN conjunct1] b
  obtain w0 where "runStorageCheckJob StreamRoute ?s boot = Some w0" "storageCache w0 = []"
     "\<not> backgroundJobRunning w0" "backgroundJobTimer w0 = Some 0" "(0, StreamRoute) \<in> set (timers w0)"
    by auto
  ultimately show ?thesis using f w j c p b(1) by blast
qed

subsection \<open>C5: the time stamp of a record\<close>

text \<open>
  C5, as stated, fails: the claim is that after the merge step the cache entry of every
  probed remote carries the time stamp of that probe's completion. A probe whose total,
  used and error equal the stored ones is not stored: \<open>x\<close> is probed at time 100 and,
  in the next cycle, at time 200 with the same total and used; its entry keeps the stamp
  100 (and the old value of free).
\<close>

theorem C5_unchanged_keeps_old_stamp_counterexample:
  "map_option (\<lambda>w. map_of (storageCache w) ''x'')
     (exec [PullGET, ListSettles 0 (ListOk (Some [''x''])),
            ProbeSettles 0 ''x'' (AboutOk (Some 10) (Some 5) (Some 5)) 100, BatchSettles 0 101,
            TimerFires 0, ListSettles 0 (ListOk (Some [''x''])),
            ProbeSettles 0 ''x'' (AboutOk (Some 10) (Some 5) (Some 4)) 200, BatchSettles 0 201] boot)
   = Some (Some \<lparr>total = Some 10, used = Some 5, free = Some 5, lastUpdated = 100, error = None\<rparr>)"
  by code_simp

text \<open>
  C5, amended: the record a probe returns carries the clock reading taken when the probe
  completed, for successful and failed probes alike. For a remote whose name the cache
  object does not inherit from its prototype, the merge reports a change exactly when no
  record is stored for the remote or total, used or error differ, and after a merge that
  reported a change the cache entry of the remote is that record, with that stamp. After
  a merge that reported none, under any name, the cache is left as it was, stamp
  included.
\<close>

theorem C5_stamp_at_completion:
  "lastUpdated (checkRemoteStorage remote reply now) = now \<and>
   (\<not> inherited (cachePrototype w) remote \<longrightarrow>
      (snd (mergeOne (storageCache w) (cachePrototype w) remote (checkRemoteStorage remote reply now))
         \<longleftrightarrow> (case map_of (storageCache w) remote of
                None \<Rightarrow> True
              | Some old \<Rightarrow>
                  total old \<noteq> total (checkRemoteStorage remote reply now) \<or>
                  used old \<noteq> used (checkRemoteStorage remote reply now) \<or>
                  error old \<noteq> error (checkRemoteStorage remote reply now))) \<and>
      (snd (mergeOne (storageCache w) (cachePrototype w) remote (checkRemoteStorage remote reply now))
         \<longrightarrow> map_of (storageCache (fst (probeSettled remote reply now (w, u)))) remote
               = Some (checkRemoteStorage remote reply now))) \<and>
   (\<not> snd (mergeOne (storageCache w) (cachePrototype w) remote (checkRemoteStorage remote reply now)) \<longrightarrow>
      storageCache (fst (probeSettled remote reply now (w, u))) = storageCache w \<and>
      cachePrototype (fst (probeSettled remote reply now (w, u))) = cachePrototype w)"
proof (intro conjI impI)
  show "lastUpdated (checkRemoteStorage remote reply now) = now"
    by (simp add: checkRemoteStorage_def checkRemoteStorage_try_def split: about_reply.split)
next
  assume n: "\<not> inherited (cachePrototype w) remote"
  show "snd (mergeOne (storageCache w) (cachePrototype w) remote (checkRemoteStorage remote reply now))
         \<longleftrightarrow> (case map_of (storageCache w) remote of
                None \<Rightarrow> True
              | Some old \<Rightarrow>
                  total old \<noteq> total (checkRemoteStorage remote reply now) \<or>
                  used old \<noteq> used (checkRemoteStorage remote reply now) \<or>
                  error old \<noteq> error (checkRemoteStorage remote reply now))"
    by (rule mergeOne_not_inherited(1)[OF n])
next
  assume n: "\<not> inherited (cachePrototype w) remote"
    and c: "snd (mergeOne (storageCache w) (cachePrototype w) remote (checkRemoteStorage remote reply now))"
  show "map_of (storageCache (fst (probeSettled remote reply now (w, u)))) remote
               = Some (checkRemoteStorage remote reply now)"
    using c by (simp add: mergeOne_not_inherited(2)[OF n] update_conv')
next
  assume c: "\<not> snd (mergeOne (storageCache w) (cachePrototype w) remote (checkRemoteStorage remote reply now))"
  show "storageCache (fst (probeSettled remote reply now (w, u))) = storageCache w"
    by (simp add: mergeOne_unchanged[OF c])
  show "cachePrototype (fst (probeSettled remote reply now (w, u))) = cachePrototype w"
    by (simp add: mergeOne_unchanged[OF c])
qed

text \<open>
  C5, two instances, for the remote \<open>x\<close>, a name that the cache object does not
  inherit: a failed first probe at time 200 is stored with the stamp 200; a probe at time
  200 that finds the stored total and used again leaves the entry stamped 100.
\<close>

theorem C5_stamp_at_completion_witness:
  "\<not> inherited (cachePrototype boot) ''x'' \<and>
   snd (mergeOne (storageCache boot) (cachePrototype boot) ''x''
          (checkRemoteStorage ''x'' (AboutThrows NonError) 200)) \<and>
   map_of (storageCache (fst (probeSettled ''x'' (AboutThrows NonError) 200 (boot, False)))) ''x''
     = Some \<lparr>total = None, used = None, free = None, lastUpdated = 200, error = Some ''Unknown error''\<rparr> \<and>
   \<not> snd (mergeOne [(''x'', \<lparr>total = Some 10, used = Some 5, free = Some 5, lastUpdated = 100, error = None\<rparr>)]
           None ''x'' (checkRemoteStorage ''x'' (AboutOk (Some 10) (Some 5) (Some 4)) 200)) \<and>
   storageCache (fst (probeSettled ''x'' (AboutOk (Some 10) (Some 5) (Some 4)) 200
       (boot\<lparr>storageCache := [(''x'', \<lparr>total = Some 10, used = Some 5, free = Some 5, lastUpdated = 100, error = None\<rparr>)]\<rparr>, False)))
     = [(''x'', \<lparr>total = Some 10, used = Some 5, free = Some 5, lastUpdated = 100, error = None\<rparr>)]"
proof -
  let ?old = "[(''x'', \<lparr>total = Some 10, used = Some 5, free = Some 5, lastUpdated = 100, error = None\<rparr>)]"
  let ?w = "boot\<lparr>storageCache := ?old\<rparr>"
  have p: "cachePrototype boot = None" "cachePrototype ?w = None" "storageCache boot = []"
    by (simp_all add: boot_def)
  have n: "\<not> inherited (cachePrototype boot) ''x''" "\<not> inherited (cachePrototype ?w) ''x''"
    by (simp_all add: p inherited_def cacheGet_def objectPrototype_def objectPrototypeMethods_def)
  have r: "checkRemoteStorage ''x'' (AboutThrows NonError) 200
      = \<lparr>total = None, used = None, free = None, lastUpdated = 200, error = Some ''Unknown error''\<rparr>"
    by (simp add: checkRemoteStorage_def checkRemoteStorage_try_def)
  have q: "total (checkRemoteStorage ''x'' (AboutOk (Some 10) (Some 5) (Some 4)) 200) = Some 10"
    "used (checkRemoteStorage ''x'' (AboutOk (Some 10) (Some 5) (Some 4)) 200) = Some 5"
    "error (checkRemoteStorage ''x'' (AboutOk (Some 10) (Some 5) (Some 4)) 200) = None"
    by (simp_all add: checkRemoteStorage_def checkRemoteStorage_try_def)
  note t1 = C5_stamp_at_completion[of "''x''" "AboutThrows NonError" 200 boot False]
  note t2 = C5_stamp_at_completion[of "''x''" "AboutOk (Some 10) (Some 5) (Some 4)" 200 ?w False]
  from t1[THEN conjunct2, THEN conjunct1] n(1)
  have a: "snd (mergeOne (storageCache boot) (cachePrototype boot) ''x''
          (checkRemoteStorage ''x'' (AboutThrows NonError) 200))"
    by (simp add: p)
  with t1[THEN conjunct2, THEN conjunct1] n(1)
  have s: "map_of (storageCache (fst (probeSettled ''x'' (AboutThrows NonError) 200 (boot, False)))) ''x''
     = Some (checkRemoteStorage ''x'' (AboutThrows NonError) 200)" by blast
  from t2[THEN conjunct2, THEN conjunct1] n(2)
  have b: "\<not> snd (mergeOne (storageCache ?w) (cachePrototype ?w) ''x''
             (checkRemoteStorage ''x'' (AboutOk (Some 10) (Some 5) (Some 4)) 200))"
    by (simp add: q)
  with t2[THEN conjunct2, THEN conjunct2]
  have k: "storageCache (fst (probeSettled ''x'' (AboutOk (Some 10) (Some 5) (Some 4)) 200 (?w, False)))
      = storageCache ?w" by blast
  from b have b': "\<not> snd (mergeOne ?old None ''x''
             (checkRemoteStorage ''x'' (AboutOk (Some 10) (Some 5) (Some 4)) 200))"
    by (simp add: p)
  from n(1) a s b' k show ?thesis by (simp add: r)
qed

subsection \<open>C6: a failing subscriber\<close>

text \<open>
  C6: when a snapshot is published to a set of subscribers (no subscriber twice), the
  subscribers left in the set are those whose sink is not closed, in their order: a
  subscriber is removed exactly when the push to its sink fails. Every subscriber with an
  open sink receives the snapshot once, as one more message after those it had; the sink
  of every other connection is left as it was.
\<close>

theorem C6_publish:
  assumes "distinct (storageSubscribers w)"
  shows "storageSubscribers (notifySubscribers now w)
           = filter (\<lambda>c. \<not> closed (sinks w c)) (storageSubscribers w) \<and>
         (\<forall>c. sinks (notifySubscribers now w) c
           = (if c \<in> set (storageSubscribers w) \<and> \<not> closed (sinks w c)
              then (sinks w c)\<lparr>delivered := delivered (sinks w c) @ [Update (storageCache w) now]\<rparr>
              else sinks w c))"
proof -
  let ?w0 = "w\<lparr>notifyCalls := Suc (notifyCalls w)\<rparr>"
  have d: "distinct (storageSubscribers w)" and sub: "set (storageSubscribers w) \<subseteq> set (storageSubscribers ?w0)"
    using assms by simp_all
  have "storageSubscribers (notifySubscribers now w)
       = filter (\<lambda>c. c \<notin> set (storageSubscribers w) \<or> \<not> closed (sinks ?w0 c)) (storageSubscribers ?w0)"
    unfolding notifySubscribers_def by (rule fold_visit_subscribers[OF d sub])
  also have "\<dots> = filter (\<lambda>c. \<not> closed (sinks w c)) (storageSubscribers w)"
    by (auto intro: filter_cong)
  finally have a: "storageSubscribers (notifySubscribers now w)
       = filter (\<lambda>c. \<not> closed (sinks w c)) (storageSubscribers w)" .
  have b: "sinks (notifySubscribers now w) c
       = (if c \<in> set (storageSubscribers w) \<and> \<not> closed (sinks w c)
              then (sinks w c)\<lparr>delivered := delivered (sinks w c) @ [Update (storageCache w) now]\<rparr>
              else sinks w c)" for c
    unfolding notifySubscribers_def using fold_visit_sinks[OF d sub, of now c] by simp
  from a b show ?thesis by blast
qed

text \<open>
  C6, the scenario: three clients connect, the sink of the second is closed from outside;
  the next publish reaches the first and the third, and the second is no longer
  subscribed.
\<close>

theorem C6_publish_witness:
  "\<exists>w. exec [StreamGET (Some ''ann'') 1, StreamGET (Some ''bob'') 2, StreamGET (Some ''cy'') 3,
              SinkCloses 1] boot = Some w \<and>
       storageSubscribers w = [0, 1, 2] \<and> distinct (storageSubscribers w) \<and>
       map (\<lambda>c. closed (sinks w c)) [0, 1, 2] = [False, True, False] \<and>
       storageSubscribers (notifySubscribers 9 w) = [0, 2] \<and>
       delivered (sinks (notifySubscribers 9 w) 0) = [Initial [] 1, Update [] 9] \<and>
       delivered (sinks (notifySubscribers 9 w) 1) = [Initial [] 2] \<and>
       delivered (sinks (notifySubscribers 9 w) 2) = [Initial [] 3, Update [] 9]"
proof -
  let ?es = "[StreamGET (Some ''ann'') 1, StreamGET (Some ''bob'') 2, StreamGET (Some ''cy'') 3,
              SinkCloses 1]"
  have "map_option (\<lambda>w. (storageSubscribers w, storageCache w, map (\<lambda>c. closed (sinks w c)) [0, 1, 2],
            map (\<lambda>c. delivered (sinks w c)) [0, 1, 2])) (exec ?es boot)
        = Some ([0, 1, 2], [], [False, True, False], [[Initial [] 1], [Initial [] 2], [Initial [] 3]])"
    by code_simp
  then obtain w where w: "exec ?es boot = Some w"
    and s: "storageSubscribers w = [0, 1, 2]" and c: "storageCache w = []"
    and cl: "map (\<lambda>c. closed (sinks w c)) [0, 1, 2] = [False, True, False]"
    and dl: "map (\<lambda>c. delivered (sinks w c)) [0, 1, 2] = [[Initial [] 1], [Initial [] 2], [Initial [] 3]]"
    by auto
  have d: "distinct (storageSubscribers w)" by (simp add: s)
  from C6_publish[OF d, of 9] s c cl dl
  have "storageSubscribers (notifySubscribers 9 w) = [0, 2] \<and>
       delivered (sinks (notifySubscribers 9 w) 0) = [Initial [] 1, Update [] 9] \<and>
       delivered (sinks (notifySubscribers 9 w) 1) = [Initial [] 2] \<and>
       delivered (sinks (notifySubscribers 9 w) 2) = [Initial [] 3, Update [] 9]"
    by simp
  with w s d cl show ?thesis by (intro exI[of _ w]) simp
qed

subsection \<open>C7: batches of five\<close>



subsection \<open>C8: expired authentication\<close>

text \<open>
  C8, as stated, fails: the claim is that any non-success status whose error body carries
  a marker such as \<open>invalid_grant\<close> makes a health check report \<open>token_expired\<close>. The
  health check tests the markers under the status 500 only: with the status 401 the
  record of the probe has its error set, and the health check reports \<open>error\<close>.
\<close>

theorem C8_status_401_counterexample:
  "error (checkRemoteStorage ''x'' (AboutNotOk 401 (Some ''oauth2: invalid_grant'') ''Unauthorized'') 1)
     = Some ''API error: 401 - oauth2: invalid_grant'' \<and>
   status (check_POST ''x'' (AboutNotOk 401 (Some ''oauth2: invalid_grant'') ''Unauthorized''))
     = Some status_error"
  by (simp add: checkRemoteStorage_def checkRemoteStorage_try_def check_POST_def tokenExpired_def
      or_else_def decimal.simps digit_def)

text \<open>
  C8, amended: for a remote with a name, when the daemon answers the capacity request with
  the status 500 and an error text that contains \<open>invalid_grant\<close>, \<open>token expired\<close> or
  \<open>couldn't fetch token\<close>, the record of the probe has its error set, to the text
  \<open>API error: 500 - \<close> followed by the daemon's error text, and a health check of the same
  remote that gets the same answer reports \<open>token_expired\<close>. For every other non-success
  answer the record has its error set and the health check reports \<open>error\<close>. The probe
  itself does not classify the failure.
\<close>

theorem C8_token_expiry:
  assumes "remote \<noteq> []"
  shows "(st = 500 \<and> (str_includes e ''invalid_grant'' \<or> str_includes e ''token expired'' \<or>
             str_includes e (''couldn'' @ [CHR 0x27] @ ''t fetch token'')) \<longrightarrow>
           error (checkRemoteStorage remote (AboutNotOk st (Some e) txt) now)
             = Some (''API error: 500 - '' @ e) \<and>
           status (check_POST remote (AboutNotOk st (Some e) txt)) = Some token_expired) \<and>
         (\<not> (st = 500 \<and> (str_includes e ''invalid_grant'' \<or> str_includes e ''token expired'' \<or>
             str_includes e (''couldn'' @ [CHR 0x27] @ ''t fetch token''))) \<longrightarrow>
           error (checkRemoteStorage remote (AboutNotOk st (Some e) txt) now) \<noteq> None \<and>
           status (check_POST remote (AboutNotOk st (Some e) txt)) = Some status_error) \<and>
         error (checkRemoteStorage remote (AboutNotOk st None txt) now) \<noteq> None \<and>
         status (check_POST remote (AboutNotOk st None txt)) = Some status_error"
proof -
  have ne: "str_includes e mk \<Longrightarrow> mk \<noteq> [] \<Longrightarrow> e \<noteq> []" for mk
    by (cases e) auto
  have msg: "error (checkRemoteStorage remote (AboutNotOk 500 (Some e) txt) now)
               = Some (''API error: 500 - '' @ e)" if "e \<noteq> []"
    using that by (simp add: checkRemoteStorage_def checkRemoteStorage_try_def or_else_def decimal_500)
  have err: "error (checkRemoteStorage remote (AboutNotOk st x txt) now) \<noteq> None" for x
    by (simp add: checkRemoteStorage_def checkRemoteStorage_try_def)
  show ?thesis
    using assms ne[of "''invalid_grant''"] ne[of "''token expired''"]
      ne[of "''couldn'' @ [CHR 0x27] @ ''t fetch token''"] msg err
    by (auto simp: check_POST_def tokenExpired_def)
qed

text \<open>C8, two instances: an expired grant and a missing directory, both under the status 500.\<close>

theorem C8_token_expiry_witness:
  "''x'' \<noteq> [] \<and>
   error (checkRemoteStorage ''x'' (AboutNotOk 500 (Some ''oauth2: invalid_grant'') ''Internal Server Error'') 1)
     = Some ''API error: 500 - oauth2: invalid_grant'' \<and>
   status (check_POST ''x'' (AboutNotOk 500 (Some ''oauth2: invalid_grant'') ''Internal Server Error''))
     = Some token_expired \<and>
   status (check_POST ''x'' (AboutNotOk 500 (Some ''directory not found'') ''Internal Server Error''))
     = Some status_error"
proof -
  have n: "''x'' \<noteq> []" by simp
  have i: "str_includes ''oauth2: invalid_grant'' ''invalid_grant''" by simp
  have j: "\<not> (str_includes ''directory not found'' ''invalid_grant'' \<or>
              str_includes ''directory not found'' ''token expired'' \<or>
              str_includes ''directory not found'' (''couldn'' @ [CHR 0x27] @ ''t fetch token''))"
    by simp
  from C8_token_expiry[OF n, of 500 "''oauth2: invalid_grant''" "''Internal Server Error''" 1] i
  have "error (checkRemoteStorage ''x'' (AboutNotOk 500 (Some ''oauth2: invalid_grant'') ''Internal Server Error'') 1)
     = Some (''API error: 500 - '' @ ''oauth2: invalid_grant'') \<and>
   status (check_POST ''x'' (AboutNotOk 500 (Some ''oauth2: invalid_grant'') ''Internal Server Error''))
     = Some token_expired" by blast
  moreover from C8_token_expiry[OF n, of 500 "''directory not found''" "''Internal Server Error''" 1] j
  have "status (check_POST ''x'' (AboutNotOk 500 (Some ''directory not found'') ''Internal Server Error''))
     = Some status_error" by blast
  ultimately show ?thesis by simp
qed

subsection \<open>C9: the caller without a session\<close>

text \<open>
  C9, the half that fails: the claim is that both the streaming interface and the
  snapshot pull interface reject a caller who is not authenticated. The handler of the pull
  interface takes no request and reads no session, and the session middleware does not
  run on its path, which starts with \<^verbatim>\<open>/api\<close>: after a streaming client has started the
  scheduler and one cycle has stored a record, a request to the pull interface is
  answered with the whole cache, whoever sends it. The streaming interface answers the
  same caller with the status 401.
\<close>

theorem C9_pull_answers_anyone:
  "\<not> matcher ''/api/rclone/storage'' \<and>
   map_option (\<lambda>w. (fst (GET_storage w), fst (GET_stream None 102 w)))
     (exec [StreamGET (Some ''ann'') 1, ListSettles 0 (ListOk (Some [''x''])),
            ProbeSettles 0 ''x'' (AboutOk (Some 10) (Some 5) (Some 5)) 100, BatchSettles 0 101] boot)
   = Some (SnapshotOk [(''x'', \<lparr>total = Some 10, used = Some 5, free = Some 5,
                                 lastUpdated = 100, error = None\<rparr>)] (Some 100),
           Unauthorized 401)"
  by code_simp

subsection \<open>C10: a manual refresh during a cycle\<close>

text \<open>
  C10: when the manual refresh is requested while a cycle is in progress, the answer is
  the acknowledgement, at once; no second cycle starts (the cycles in progress are the
  same one); the pending timer, if there is one, is cleared, the global handle is null,
  and no timer is armed. Whatever happens afterwards, either the cycle is still in
  progress and no timer is armed, or there was a first step at which the flag was
  cleared, and that step, the end of the cycle, armed a new timer: the next timer is the
  one the cycle arms when it completes.
\<close>

theorem C10_refresh_during_cycle:
  assumes "reachable w" and "backgroundJobRunning w"
  shows "fst (POST_storage w) = RefreshOk ''Storage refresh triggered'' \<and>
         jobs (snd (POST_storage w)) = jobs w \<and> length (jobs w) = 1 \<and>
         backgroundJobRunning (snd (POST_storage w)) \<and>
         backgroundJobTimer (snd (POST_storage w)) = None \<and>
         timers (snd (POST_storage w)) = [] \<and>
         (\<forall>es w1. exec es (snd (POST_storage w)) = Some w1 \<longrightarrow>
            (backgroundJobRunning w1 \<and> timers w1 = []) \<or>
            (\<exists>es1 e es2 v v'. es = es1 @ e # es2 \<and> exec es1 (snd (POST_storage w)) = Some v \<and>
               backgroundJobRunning v \<and> timers v = [] \<and> step e v = Some v' \<and>
               \<not> backgroundJobRunning v' \<and> backgroundJobTimer v' = Some (timerSeq v) \<and>
               (\<exists>m. timers v' = [(timerSeq v, m)])))"
proof -
  let ?w = "snd (POST_storage w)"
  have i: "sched_inv w" by (rule reachable_sched_inv[OF assms(1)])
  with assms(2) have t: "timers w = [] \<or> armed w" and l: "length (jobs w) = 1"
    by (cases "jobs w"; auto simp: sched_inv_def)+
  have p: "step PullPOST w = Some ?w" by simp
  have i': "sched_inv ?w" by (rule sched_inv_step[OF i p])
  have a: "fst (POST_storage w) = RefreshOk ''Storage refresh triggered''"
    by (simp add: POST_storage_def Let_def)
  have b: "jobs ?w = jobs w" "backgroundJobRunning ?w" "backgroundJobTimer ?w = None" "timers ?w = []"
    using assms(2) t
    by (auto simp: POST_storage_def Let_def clearTimeout_def armed_def split: option.splits)
  have c: "(backgroundJobRunning w1 \<and> timers w1 = []) \<or>
            (\<exists>es1 e es2 v v'. es = es1 @ e # es2 \<and> exec es1 ?w = Some v \<and>
               backgroundJobRunning v \<and> timers v = [] \<and> step e v = Some v' \<and>
               \<not> backgroundJobRunning v' \<and> backgroundJobTimer v' = Some (timerSeq v) \<and>
               (\<exists>m. timers v' = [(timerSeq v, m)]))"
    if "exec es ?w = Some w1" for es w1
    by (rule quiet_exec[OF i' b(2) b(4) that])
  from a b l c show ?thesis by blast
qed

text \<open>
  C10, an instance: a first cycle arms the timer; the background service then starts a
  second cycle while that timer is pending; a manual refresh during this cycle clears the
  timer, and the cycle, when it ends, arms the next one.
\<close>

theorem C10_refresh_during_cycle_witness:
  "\<exists>w w1. exec [ServerStarts, PullGET, ListSettles 0 (ListOk None), DaemonReady] boot = Some w \<and>
       reachable w \<and> backgroundJobRunning w \<and>
       backgroundJobTimer w = Some 0 \<and> timers w = [(0, PullRoute)] \<and>
       fst (POST_storage w) = RefreshOk ''Storage refresh triggered'' \<and>
       jobs (snd (POST_storage w)) = [AwaitList BackgroundService] \<and>
       backgroundJobTimer (snd (POST_storage w)) = None \<and> timers (snd (POST_storage w)) = [] \<and>
       exec [ListSettles 0 (ListOk None)] (snd (POST_storage w)) = Some w1 \<and>
       \<not> backgroundJobRunning w1 \<and> backgroundJobTimer w1 = Some 1 \<and>
       timers w1 = [(1, BackgroundService)]"
proof -
  let ?es = "[ServerStarts, PullGET, ListSettles 0 (ListOk None), DaemonReady]"
  have "map_option (\<lambda>w. (jobs w, backgroundJobRunning w, backgroundJobTimer w, timers w)) (exec ?es boot)
          = Some ([AwaitList BackgroundService], True, Some 0, [(0, PullRoute)])"
    by code_simp
  then obtain w where w: "exec ?es boot = Some w" and j: "jobs w = [AwaitList BackgroundService]"
    and r: "backgroundJobRunning w" and h: "backgroundJobTimer w = Some 0"
    and t: "timers w = [(0, PullRoute)]"
    by auto
  have "map_option (\<lambda>w. (backgroundJobRunning w, backgroundJobTimer w, timers w))
          (exec (?es @ [PullPOST, ListSettles 0 (ListOk None)]) boot)
          = Some (False, Some 1, [(1, BackgroundService)])"
    by code_simp
  then have "map_option (\<lambda>w. (backgroundJobRunning w, backgroundJobTimer w, timers w))
          (exec [PullPOST, ListSettles 0 (ListOk None)] w) = Some (False, Some 1, [(1, BackgroundService)])"
    by (simp only: exec_then[OF w])
  then obtain w1 where w1: "exec [ListSettles 0 (ListOk None)] (snd (POST_storage w)) = Some w1"
    and r1: "\<not> backgroundJobRunning w1" and h1: "backgroundJobTimer w1 = Some 1"
    and t1: "timers w1 = [(1, BackgroundService)]"
    by (auto split: option.splits)
  have rw: "reachable w" by (rule reachable_exec[OF reachable.start w])
  from C10_refresh_during_cycle[OF rw r] j
  have "fst (POST_storage w) = RefreshOk ''Storage refresh triggered'' \<and>
       jobs (snd (POST_storage w)) = [AwaitList BackgroundService] \<and>
       backgroundJobTimer (snd (POST_storage w)) = None \<and> timers (snd (POST_storage w)) = []"
    by simp
  with w rw r h t w1 r1 h1 t1 show ?thesis by blast
qed

end
